theory Spec2Isabelle
  imports Complex_Main "HOL-Library.Log_Nat"
begin

section \<open>Binary floating point as the C code uses it\<close>

text \<open>
  \<^verbatim>\<open>main.c\<close> computes with C \<^verbatim>\<open>float\<close> (IEEE-754 binary32) for the star field, the
  scroll offset and the time counter, and with \<^verbatim>\<open>double\<close> (binary64) wherever a value
  passes through \<^verbatim>\<open>sin\<close>. A finite floating-point value is modelled by the real number
  it denotes; every arithmetic operation computes the exact real result and rounds it to
  the nearest representable value, ties to the even significand, as the default IEEE
  rounding mode does (each operation rounded to its own type, as on x86-64 with SSE).

  A format is given by its precision \<open>p\<close> (24 or 53 significand bits) and by \<open>emin\<close>,
  where \<open>2 ^ -emin\<close> is the smallest positive subnormal (149 or 1074). Rounding scales
  the magnitude by \<open>2 ^ emin\<close>, so that representable values become integers; the spacing
  of representable values around \<open>y\<close> is then \<open>2 ^ ulp_exp p y\<close>, which is 1 throughout the
  subnormal range and the first binade. Infinities and NaN are not values of the model.
  A division by zero, which would produce one, is made explicit where the divisor is a
  variable (the division by a star's depth is a checked division); a result beyond the
  largest finite value is rounded as if the exponent range were unbounded, and the
  quantities the statements below are about (depths up to 512, speeds below 1, scroll
  offsets below \<open>2 ^ 24\<close>, colour and position values up to 525) stay far from it.
\<close>

definition rne :: "real \<Rightarrow> int" where
  "rne r = (let f = \<lfloor>r\<rfloor>; d = r - of_int f in
     if d < 1/2 then f else if 1/2 < d then f + 1 else if even f then f else f + 1)"

definition ulp_exp :: "nat \<Rightarrow> real \<Rightarrow> nat" where
  "ulp_exp p y = nat (bitlen \<lfloor>y\<rfloor> - int p)"

definition round_mag :: "nat \<Rightarrow> real \<Rightarrow> real" where
  "round_mag p y = of_int (rne (y / 2 ^ ulp_exp p y)) * 2 ^ ulp_exp p y"

definition round_fp :: "nat \<Rightarrow> nat \<Rightarrow> real \<Rightarrow> real" where
  "round_fp p emin v = sgn v * (round_mag p (\<bar>v\<bar> * 2 ^ emin) / 2 ^ emin)"

definition round32 :: "real \<Rightarrow> real" where
  "round32 = round_fp 24 149"

definition round64 :: "real \<Rightarrow> real" where
  "round64 = round_fp 53 1074"

text \<open>The \<^verbatim>\<open>float\<close> operations \<^verbatim>\<open>+ - * /\<close>; \<open>fdiv\<close> is used with non-zero divisors only.\<close>

definition fadd :: "real \<Rightarrow> real \<Rightarrow> real" where
  "fadd a b = round32 (a + b)"

definition fsub :: "real \<Rightarrow> real \<Rightarrow> real" where
  "fsub a b = round32 (a - b)"

definition fmul :: "real \<Rightarrow> real \<Rightarrow> real" where
  "fmul a b = round32 (a * b)"

definition fdiv :: "real \<Rightarrow> real \<Rightarrow> real" where
  "fdiv a b = round32 (a / b)"

text \<open>The \<^verbatim>\<open>double\<close> operations.\<close>

definition dadd :: "real \<Rightarrow> real \<Rightarrow> real" where
  "dadd a b = round64 (a + b)"

definition dmul :: "real \<Rightarrow> real \<Rightarrow> real" where
  "dmul a b = round64 (a * b)"

definition ddiv :: "real \<Rightarrow> real \<Rightarrow> real" where
  "ddiv a b = round64 (a / b)"

text \<open>
  Conversions. An \<^verbatim>\<open>int\<close> converted to \<^verbatim>\<open>float\<close> or \<^verbatim>\<open>double\<close> is rounded like any other
  value. The cast \<^verbatim>\<open>(int)\<close> truncates toward zero; where the truncated value does not fit
  32 bits the x86 conversion instruction yields \<^verbatim>\<open>INT_MIN\<close>. The cast \<^verbatim>\<open>(Uint8)\<close> keeps
  the low byte of that integer.
\<close>

definition int_to_float :: "int \<Rightarrow> real" where
  "int_to_float i = round32 (of_int i)"

definition int_to_double :: "int \<Rightarrow> real" where
  "int_to_double i = round64 (of_int i)"

definition trunc_zero :: "real \<Rightarrow> int" where
  "trunc_zero v = (if 0 \<le> v then \<lfloor>v\<rfloor> else \<lceil>v\<rceil>)"

definition fp_to_int :: "real \<Rightarrow> int" where
  "fp_to_int v = (let t = trunc_zero v in
     if - (2 ^ 31) \<le> t \<and> t < 2 ^ 31 then t else - (2 ^ 31))"

definition fp_to_uint8 :: "real \<Rightarrow> nat" where
  "fp_to_uint8 v = nat (fp_to_int v mod 256)"

text \<open>Integer division of C truncates toward zero.\<close>

definition c_div :: "int \<Rightarrow> int \<Rightarrow> int" where
  "c_div a b = sgn a * sgn b * (\<bar>a\<bar> div \<bar>b\<bar>)"

section \<open>Constants and data of \<^verbatim>\<open>main.c\<close>\<close>

definition SCREEN_WIDTH :: int where
  "SCREEN_WIDTH = 800"

definition SCREEN_HEIGHT :: int where
  "SCREEN_HEIGHT = 600"

definition NUM_STARS :: nat where
  "NUM_STARS = 500"

definition STAR_SPREAD :: int where
  "STAR_SPREAD = 512"

text \<open>
  \<^verbatim>\<open>typedef struct { float x, y, z; float speed; } Star;\<close> The coordinate fields carry a
  prefix, since one-letter record selectors would capture the variables of every later
  statement.
\<close>

record star =
  star_x :: real
  star_y :: real
  star_z :: real
  speed :: real

text \<open>\<^verbatim>\<open>SDL_Rect\<close>, and a colour as the three bytes handed to SDL.\<close>

record rect =
  rect_x :: int
  rect_y :: int
  rect_w :: int
  rect_h :: int

type_synonym rgb = "nat \<times> nat \<times> nat"

text \<open>
  \<^verbatim>\<open>rand()\<close> belongs to the C library. After \<^verbatim>\<open>srand(time(NULL))\<close> it yields a fixed
  sequence of non-negative integers; the model takes that sequence as a parameter
  \<open>rs\<close> and threads the number of values drawn so far.
\<close>

type_synonym rand_src = "nat \<Rightarrow> nat"

definition rand :: "rand_src \<Rightarrow> nat \<Rightarrow> int \<times> nat" where
  "rand rs g = (int (rs g), Suc g)"

section \<open>The star field\<close>

text \<open>
  One iteration of the loop of \<^verbatim>\<open>init_stars\<close>: four draws, in the order x, y, z, speed.
  \<^verbatim>\<open>
  stars[i].x = (float)(rand() % STAR_SPREAD) - (STAR_SPREAD / 2);
  stars[i].y = (float)(rand() % STAR_SPREAD) - (STAR_SPREAD / 2);
  stars[i].z = (float)(rand() % STAR_SPREAD);
  stars[i].speed = ((float)(rand() % 100) / 200.0f) + 0.2f;
  \<close>
\<close>

definition init_star :: "rand_src \<Rightarrow> nat \<Rightarrow> star \<times> nat" where
  "init_star rs g =
     (let (r1, g1) = rand rs g;
          (r2, g2) = rand rs g1;
          (r3, g3) = rand rs g2;
          (r4, g4) = rand rs g3
      in (\<lparr>star_x = fsub (int_to_float (r1 mod STAR_SPREAD)) (int_to_float (c_div STAR_SPREAD 2)),
           star_y = fsub (int_to_float (r2 mod STAR_SPREAD)) (int_to_float (c_div STAR_SPREAD 2)),
           star_z = int_to_float (r3 mod STAR_SPREAD),
           speed = fadd (fdiv (int_to_float (r4 mod 100)) (round32 200)) (round32 (2 / 10))\<rparr>,
          g4))"

primrec init_loop :: "rand_src \<Rightarrow> nat \<Rightarrow> nat \<Rightarrow> star list \<times> nat" where
  "init_loop rs 0 g = ([], g)"
| "init_loop rs (Suc n) g =
     (let (s, g1) = init_star rs g;
          (ss, g2) = init_loop rs n g1
      in (s # ss, g2))"

definition init_stars :: "rand_src \<Rightarrow> star list \<times> nat" where
  "init_stars rs = init_loop rs NUM_STARS 0"

text \<open>
  One iteration of the loop of \<^verbatim>\<open>update_stars\<close>.
  \<^verbatim>\<open>
  stars[i].z -= stars[i].speed;
  if (stars[i].z <= 0) {
      stars[i].x = (float)(rand() % STAR_SPREAD) - (STAR_SPREAD / 2);
      stars[i].y = (float)(rand() % STAR_SPREAD) - (STAR_SPREAD / 2);
      stars[i].z = STAR_SPREAD;
  }
  \<close>
\<close>

definition update_star :: "rand_src \<Rightarrow> star \<Rightarrow> nat \<Rightarrow> star \<times> nat" where
  "update_star rs s g =
     (let z1 = fsub (star_z s) (speed s)
      in if z1 \<le> int_to_float 0 then
           (let (r1, g1) = rand rs g;
                (r2, g2) = rand rs g1
            in (s\<lparr>star_x := fsub (int_to_float (r1 mod STAR_SPREAD)) (int_to_float (c_div STAR_SPREAD 2)),
                  star_y := fsub (int_to_float (r2 mod STAR_SPREAD)) (int_to_float (c_div STAR_SPREAD 2)),
                  star_z := int_to_float STAR_SPREAD\<rparr>,
                g2))
         else (s\<lparr>star_z := z1\<rparr>, g))"

fun update_stars :: "rand_src \<Rightarrow> star list \<Rightarrow> nat \<Rightarrow> star list \<times> nat" where
  "update_stars rs [] g = ([], g)"
| "update_stars rs (s # ss) g =
     (let (s1, g1) = update_star rs s g;
          (ss1, g2) = update_stars rs ss g1
      in (s1 # ss1, g2))"

text \<open>
  \<^verbatim>\<open>render_stars\<close>, one star. The perspective divide \<^verbatim>\<open>128.0f / stars[i].z\<close> is a checked
  division: a zero divisor is reported as a fault instead of producing an infinity.
  \<^verbatim>\<open>
  if (stars[i].z > 0) {
      float k = 128.0f / stars[i].z;
      int px = (int)(stars[i].x * k + SCREEN_WIDTH / 2);
      int py = (int)(stars[i].y * k + SCREEN_HEIGHT / 2);
      if (px >= 0 && px < SCREEN_WIDTH && py >= 0 && py < SCREEN_HEIGHT) {
          float size = (1.0f - (stars[i].z / STAR_SPREAD)) * 3;
          SDL_Rect r = { px, py, (int)size, (int)size };
          SDL_RenderFillRect(renderer, &r);
      }
  }
  \<close>
\<close>

datatype fault = Division_By_Zero

definition fdiv_checked :: "real \<Rightarrow> real \<Rightarrow> fault + real" where
  "fdiv_checked a b = (if b = 0 then Inl Division_By_Zero else Inr (fdiv a b))"

definition star_size :: "real \<Rightarrow> real" where
  "star_size zz = fmul (fsub (round32 1) (fdiv zz (int_to_float STAR_SPREAD))) (int_to_float 3)"

definition star_size_px :: "real \<Rightarrow> int" where
  "star_size_px zz = fp_to_int (star_size zz)"

definition render_star :: "star \<Rightarrow> fault + rect option" where
  "render_star s =
     (if star_z s > int_to_float 0 then
        (case fdiv_checked (round32 128) (star_z s) of
           Inl e \<Rightarrow> Inl e
         | Inr k \<Rightarrow>
             (let px = fp_to_int (fadd (fmul (star_x s) k) (int_to_float (c_div SCREEN_WIDTH 2)));
                  py = fp_to_int (fadd (fmul (star_y s) k) (int_to_float (c_div SCREEN_HEIGHT 2)))
              in if 0 \<le> px \<and> px < SCREEN_WIDTH \<and> 0 \<le> py \<and> py < SCREEN_HEIGHT then
                   Inr (Some \<lparr>rect_x = px, rect_y = py,
                              rect_w = star_size_px (star_z s), rect_h = star_size_px (star_z s)\<rparr>)
                 else Inr None))
      else Inr None)"

fun render_stars :: "star list \<Rightarrow> fault + rect list" where
  "render_stars [] = Inr []"
| "render_stars (s # ss) =
     (case render_star s of
        Inl e \<Rightarrow> Inl e
      | Inr r \<Rightarrow>
          (case render_stars ss of
             Inl e \<Rightarrow> Inl e
           | Inr rs \<Rightarrow> Inr (case r of None \<Rightarrow> rs | Some q \<Rightarrow> q # rs)))"

section \<open>Colour cycling, raster bar and scroller\<close>

text \<open>
  \<^verbatim>\<open>sin\<close> is the double-precision sine of the C mathematics library; the model takes it
  as a parameter \<open>sn\<close>. A colour channel is
  \<^verbatim>\<open>(Uint8)((sin(arg) + 1.0f) / 2.0f * 255)\<close>, evaluated in \<^verbatim>\<open>double\<close>; the argument of
  the sine is computed in \<^verbatim>\<open>float\<close> before it is widened.
\<close>

definition cycle_value :: "(real \<Rightarrow> real) \<Rightarrow> real \<Rightarrow> real" where
  "cycle_value sn a = dmul (ddiv (dadd (sn a) (round32 1)) (round32 2)) (int_to_double 255)"

definition cycle_channel :: "(real \<Rightarrow> real) \<Rightarrow> real \<Rightarrow> nat" where
  "cycle_channel sn a = fp_to_uint8 (cycle_value sn a)"

text \<open>
  The colour of \<^verbatim>\<open>render_raster_bar\<close>:
  \<^verbatim>\<open>
  Uint8 r = (Uint8)((sin(time_counter * 0.8f) + 1.0f) / 2.0f * 255);
  Uint8 g = (Uint8)((sin(time_counter * 0.8f + 2.0f) + 1.0f) / 2.0f * 255);
  Uint8 b = (Uint8)((sin(time_counter * 0.8f + 4.0f) + 1.0f) / 2.0f * 255);
  \<close>
\<close>

definition raster_colour :: "(real \<Rightarrow> real) \<Rightarrow> real \<Rightarrow> rgb" where
  "raster_colour sn t =
     (cycle_channel sn (fmul t (round32 (8 / 10))),
      cycle_channel sn (fadd (fmul t (round32 (8 / 10))) (round32 2)),
      cycle_channel sn (fadd (fmul t (round32 (8 / 10))) (round32 4)))"

text \<open>
  The rectangle of \<^verbatim>\<open>render_raster_bar\<close>:
  \<^verbatim>\<open>
  bar.x = 0;
  bar.w = SCREEN_WIDTH;
  bar.h = SCREEN_HEIGHT / 8;
  bar.y = (int)((sin(time_counter) + 1.0f) / 2.0f * (SCREEN_HEIGHT - bar.h));
  \<close>
\<close>

definition bar_h :: int where
  "bar_h = c_div SCREEN_HEIGHT 8"

definition bar_y :: "(real \<Rightarrow> real) \<Rightarrow> real \<Rightarrow> int" where
  "bar_y sn t =
     fp_to_int (dmul (ddiv (dadd (sn t) (round32 1)) (round32 2))
                     (int_to_double (SCREEN_HEIGHT - bar_h)))"

definition render_raster_bar :: "(real \<Rightarrow> real) \<Rightarrow> real \<Rightarrow> rgb \<times> rect" where
  "render_raster_bar sn t =
     (raster_colour sn t,
      \<lparr>rect_x = 0, rect_y = bar_y sn t, rect_w = SCREEN_WIDTH, rect_h = bar_h\<rparr>)"

text \<open>
  \<^verbatim>\<open>render_scroller\<close>: the tint and the destination rectangle.
  \<^verbatim>\<open>
  Uint8 r = (Uint8)((sin(time_counter) + 1.0f) / 2.0f * 255);
  Uint8 g = (Uint8)((sin(time_counter + 2.0f) + 1.0f) / 2.0f * 255);
  Uint8 b = (Uint8)((sin(time_counter + 4.0f) + 1.0f) / 2.0f * 255);
  destRect.x = (int)scrollX;
  destRect.y = (int)((SCREEN_HEIGHT / 2) - (textHeight / 2)
                     + (sin(time_counter * 2.0f) * (SCREEN_HEIGHT / 20)));
  \<close>
\<close>

definition scroller_tint :: "(real \<Rightarrow> real) \<Rightarrow> real \<Rightarrow> rgb" where
  "scroller_tint sn t =
     (cycle_channel sn t,
      cycle_channel sn (fadd t (round32 2)),
      cycle_channel sn (fadd t (round32 4)))"

definition render_scroller :: "(real \<Rightarrow> real) \<Rightarrow> int \<Rightarrow> int \<Rightarrow> real \<Rightarrow> real \<Rightarrow> rgb \<times> rect" where
  "render_scroller sn textWidth textHeight sx t =
     (scroller_tint sn t,
      \<lparr>rect_x = fp_to_int sx,
       rect_y = fp_to_int
         (dadd (int_to_double (c_div SCREEN_HEIGHT 2 - c_div textHeight 2))
               (dmul (sn (fmul t (round32 2))) (int_to_double (c_div SCREEN_HEIGHT 20)))),
       rect_w = textWidth, rect_h = textHeight\<rparr>)"

section \<open>The main loop\<close>

text \<open>
  The scroll offset, lines 91 to 94 of \<^verbatim>\<open>main\<close>:
  \<^verbatim>\<open>
  scrollX -= 1.5f;
  if (scrollX < -textW) {
      scrollX = SCREEN_WIDTH;
  }
  \<close>
\<close>

definition scroll_update :: "int \<Rightarrow> real \<Rightarrow> real" where
  "scroll_update textW sx =
     (let sx1 = fsub sx (round32 (15 / 10))
      in if sx1 < int_to_float (- textW) then int_to_float SCREEN_WIDTH else sx1)"

text \<open>
  The state the loop works on: the globals \<^verbatim>\<open>stars\<close>, \<^verbatim>\<open>scrollX\<close>, \<^verbatim>\<open>time_counter\<close>, the
  position in the random sequence and the local flag \<^verbatim>\<open>is_running\<close>.
\<close>

record demo_state =
  stars :: "star list"
  rand_pos :: nat
  scrollX :: real
  time_counter :: real
  is_running :: bool

datatype event = Quit | Other_Event

text \<open>
  \<^verbatim>\<open>while (SDL_PollEvent(&e) != 0) { if (e.type == SDL_QUIT) is_running = 0; }\<close>
  The argument is the content of the event queue when the tick begins.
\<close>

fun poll_events :: "event list \<Rightarrow> bool \<Rightarrow> bool" where
  "poll_events [] running = running"
| "poll_events (e # es) running = poll_events es (if e = Quit then False else running)"

text \<open>
  The update block of the loop body (\<^verbatim>\<open>update_stars(); scrollX -= 1.5f; ...;
  time_counter += 0.05f;\<close>). It does not look at \<^verbatim>\<open>is_running\<close>.
\<close>

definition update_logic :: "int \<Rightarrow> rand_src \<Rightarrow> demo_state \<Rightarrow> demo_state" where
  "update_logic textW rs s =
     (let (st, g) = update_stars rs (stars s) (rand_pos s)
      in s\<lparr>stars := st, rand_pos := g,
            scrollX := scroll_update textW (scrollX s),
            time_counter := fadd (time_counter s) (round32 (5 / 100))\<rparr>)"

text \<open>What one pass draws, back to front; drawing changes no state.\<close>

definition draw_frame ::
  "(real \<Rightarrow> real) \<Rightarrow> int \<Rightarrow> int \<Rightarrow> demo_state \<Rightarrow> fault + (rect list \<times> (rgb \<times> rect) \<times> (rgb \<times> rect))" where
  "draw_frame sn textW textH s =
     (case render_stars (stars s) of
        Inl e \<Rightarrow> Inl e
      | Inr rs \<Rightarrow> Inr (rs, render_raster_bar sn (time_counter s),
                       render_scroller sn textW textH (scrollX s) (time_counter s)))"

text \<open>
  One pass through the body of \<^verbatim>\<open>while (is_running)\<close>: drain the event queue, update,
  draw. The frame-rate limiter at the end of the body only waits.
\<close>

definition tick :: "int \<Rightarrow> rand_src \<Rightarrow> event list \<Rightarrow> demo_state \<Rightarrow> demo_state" where
  "tick textW rs evs s = update_logic textW rs (s\<lparr>is_running := poll_events evs (is_running s)\<rparr>)"

text \<open>
  The loop, run against the event queues of successive ticks. The condition is tested
  before each pass; the loop ends when the flag is clear (or the observed queues end).
\<close>

fun main_loop :: "int \<Rightarrow> rand_src \<Rightarrow> event list list \<Rightarrow> demo_state \<Rightarrow> demo_state" where
  "main_loop textW rs [] s = s"
| "main_loop textW rs (evs # rest) s =
     (if is_running s then main_loop textW rs rest (tick textW rs evs s) else s)"

text \<open>The state at the first test of the loop condition.\<close>

definition initial_state :: "rand_src \<Rightarrow> demo_state" where
  "initial_state rs =
     \<lparr>stars = fst (init_stars rs), rand_pos = snd (init_stars rs),
      scrollX = int_to_float SCREEN_WIDTH, time_counter = int_to_float 0, is_running = True\<rparr>"

section \<open>Runs of the program\<close>

text \<open>
  The star array after \<^verbatim>\<open>init_stars\<close> and \<open>n\<close> subsequent calls of \<^verbatim>\<open>update_stars\<close>,
  together with the position reached in the random sequence.
\<close>

primrec run_updates :: "rand_src \<Rightarrow> nat \<Rightarrow> star list \<times> nat" where
  "run_updates rs 0 = init_stars rs"
| "run_updates rs (Suc n) = update_stars rs (fst (run_updates rs n)) (snd (run_updates rs n))"

text \<open>The scroll offset after \<open>n\<close> passes of the loop, starting from \<^verbatim>\<open>scrollX = SCREEN_WIDTH\<close>.\<close>

primrec scroll_after :: "int \<Rightarrow> nat \<Rightarrow> real" where
  "scroll_after textW 0 = int_to_float SCREEN_WIDTH"
| "scroll_after textW (Suc n) = scroll_update textW (scroll_after textW n)"

text \<open>A sequence of passes through the loop body, one per event queue.\<close>

primrec run_ticks :: "int \<Rightarrow> rand_src \<Rightarrow> event list list \<Rightarrow> demo_state \<Rightarrow> demo_state" where
  "run_ticks textW rs [] s = s"
| "run_ticks textW rs (evs # rest) s = run_ticks textW rs rest (tick textW rs evs s)"

text \<open>The random sequence that yields the same value at every draw.\<close>

definition const_rand :: "nat \<Rightarrow> rand_src" where
  "const_rand c k = c"

section \<open>Properties of rounding\<close>

text \<open>
  Rounding is monotone, and it returns every representable value unchanged. These two
  facts carry all the floating-point reasoning below: a computed value is bounded by
  rounding a bound, and the values the program steps through are shown representable.
\<close>

lemma rne_of_int: "rne (of_int n) = n"
  by (simp add: rne_def)

lemma rne_bounds: "\<lfloor>r\<rfloor> \<le> rne r \<and> rne r \<le> \<lfloor>r\<rfloor> + 1"
  by (simp add: rne_def Let_def)

lemma rne_mono: assumes "a \<le> b" shows "rne a \<le> rne b"
proof (cases "\<lfloor>a\<rfloor> = \<lfloor>b\<rfloor>")
  case True
  with assms show ?thesis by (auto simp: rne_def Let_def)
next
  case False
  with assms have "\<lfloor>a\<rfloor> < \<lfloor>b\<rfloor>" using floor_mono[of a b] by linarith
  with rne_bounds[of a] rne_bounds[of b] show ?thesis by linarith
qed


lemma ulp_exp_le: assumes "y < 2 ^ (p + k)" shows "ulp_exp p y \<le> k"
proof -
  have "\<lfloor>y\<rfloor> < 2 ^ (p + k)"
    using assms by (simp add: floor_less_iff)
  then have "bitlen \<lfloor>y\<rfloor> \<le> int (p + k)"
    by (simp only: bitlen_le_iff_power nat_int) simp
  then show ?thesis by (simp add: ulp_exp_def)
qed

lemma ulp_exp_ge: assumes "2 ^ (p + k) \<le> y" shows "Suc k \<le> ulp_exp p y"
proof -
  have "(2::int) ^ (p + k) \<le> \<lfloor>y\<rfloor>"
    using assms by (simp add: le_floor_iff)
  moreover have "nat (int (p + k) + 1) - 1 = p + k" by simp
  ultimately have "int (p + k) + 1 \<le> bitlen \<lfloor>y\<rfloor>"
    by (simp only: bitlen_ge_iff_power) simp
  then show ?thesis by (simp add: ulp_exp_def)
qed

lemma ulp_exp_eq: assumes "2 ^ (p + k) \<le> y" "y < 2 ^ (p + Suc k)" shows "ulp_exp p y = Suc k"
  using ulp_exp_le[of y p "Suc k"] ulp_exp_ge[of p k y] assms by simp

lemma ulp_exp_zero: assumes "y < 2 ^ p" shows "ulp_exp p y = 0"
  using ulp_exp_le[of y p 0] assms by simp

lemma ulp_exp_lower: assumes "ulp_exp p y = Suc k" shows "2 ^ (p + k) \<le> y"
proof (rule ccontr)
  assume "\<not> 2 ^ (p + k) \<le> y"
  then have "y < 2 ^ (p + k)" by simp
  from ulp_exp_le[OF this] assms show False by simp
qed

lemma ulp_exp_upper: "y < 2 ^ (p + ulp_exp p y)"
proof (rule ccontr)
  assume "\<not> y < 2 ^ (p + ulp_exp p y)"
  then have "2 ^ (p + ulp_exp p y) \<le> y" by simp
  from ulp_exp_ge[OF this] show False by simp
qed

lemma round_mag_nonneg: "0 \<le> y \<Longrightarrow> 0 \<le> round_mag p y"
  using rne_mono[of 0 "y / 2 ^ ulp_exp p y"] rne_of_int[of 0]
  by (simp add: round_mag_def)

lemma round_mag_le_top: "0 < p \<Longrightarrow> round_mag p y \<le> 2 ^ (p + ulp_exp p y)"
proof -
  let ?k = "ulp_exp p y"
  have "y / 2 ^ ?k \<le> 2 ^ p"
    using ulp_exp_upper[of y p] by (simp add: divide_le_eq power_add)
  then have "rne (y / 2 ^ ?k) \<le> rne (of_int (2 ^ p))"
    by (intro rne_mono) simp
  then have "rne (y / 2 ^ ?k) \<le> 2 ^ p" by (simp only: rne_of_int)
  then have "(of_int (rne (y / 2 ^ ?k)) :: real) \<le> of_int (2 ^ p)"
    by (simp only: of_int_le_iff)
  then show ?thesis by (simp add: round_mag_def power_add)
qed

lemma round_mag_ge_bottom:
  assumes "ulp_exp p y = Suc k" "0 < p" shows "2 ^ (p + k) \<le> round_mag p y"
proof -
  obtain p' where p': "p = Suc p'" using assms(2) by (cases p) auto
  have "2 ^ (p + k) \<le> y" by (rule ulp_exp_lower[OF assms(1)])
  then have "2 ^ p' \<le> y / 2 ^ Suc k"
    by (simp add: le_divide_eq power_add p' mult.commute mult.left_commute)
  then have "rne (of_int (2 ^ p')) \<le> rne (y / 2 ^ Suc k)"
    by (intro rne_mono) simp
  then have "2 ^ p' \<le> rne (y / 2 ^ Suc k)" by (simp only: rne_of_int)
  then have "(of_int (2 ^ p') :: real) \<le> of_int (rne (y / 2 ^ Suc k))"
    by (simp only: of_int_le_iff)
  then have "(2 ^ p' :: real) * 2 ^ Suc k \<le> of_int (rne (y / 2 ^ Suc k)) * 2 ^ Suc k"
    by (intro mult_right_mono) simp_all
  moreover have "(2 ^ p' :: real) * 2 ^ Suc k = 2 ^ (p + k)" by (simp add: p' power_add)
  ultimately show ?thesis by (simp only: round_mag_def assms(1))
qed

lemma round_mag_mono:
  assumes "a \<le> b" "0 < p" shows "round_mag p a \<le> round_mag p b"
proof -
  have kmono: "ulp_exp p a \<le> ulp_exp p b"
    using assms(1) ulp_exp_upper[of b p] ulp_exp_le[of a p "ulp_exp p b"] by simp
  show ?thesis
  proof (cases "ulp_exp p a = ulp_exp p b")
    case True
    have "a / 2 ^ ulp_exp p b \<le> b / 2 ^ ulp_exp p b"
      using assms(1) by (simp add: divide_right_mono)
    from rne_mono[OF this] have "(of_int (rne (a / 2 ^ ulp_exp p b)) :: real) \<le> of_int (rne (b / 2 ^ ulp_exp p b))"
      by (simp only: of_int_le_iff)
    then show ?thesis by (simp add: round_mag_def True)
  next
    case False
    with kmono have lt: "ulp_exp p a < ulp_exp p b" by simp
    then obtain k where k: "ulp_exp p b = Suc k" by (cases "ulp_exp p b") auto
    with lt have "ulp_exp p a \<le> k" by simp
    then have "(2::real) ^ (p + ulp_exp p a) \<le> 2 ^ (p + k)" by simp
    with round_mag_le_top[OF assms(2), of a] round_mag_ge_bottom[OF k assms(2)]
    show ?thesis by linarith
  qed
qed

lemma round_fp_mono:
  assumes "a \<le> b" "0 < p" shows "round_fp p emin a \<le> round_fp p emin b"
proof -
  let ?M = "\<lambda>v. round_mag p (\<bar>v\<bar> * 2 ^ emin) / 2 ^ emin"
  have nn: "0 \<le> ?M v" for v by (simp add: round_mag_nonneg)
  consider "b < 0" | "a < 0" "0 \<le> b" | "0 \<le> a" using assms(1) by linarith
  then show ?thesis
  proof cases
    case 1
    with assms(1) have "\<bar>b\<bar> * 2 ^ emin \<le> \<bar>a\<bar> * 2 ^ emin" by simp
    from round_mag_mono[OF this assms(2)] have "?M b \<le> ?M a" by (simp add: divide_right_mono)
    with 1 assms(1) show ?thesis by (simp add: round_fp_def)
  next
    case 2
    have "round_fp p emin a \<le> 0" using 2 nn[of a] by (simp add: round_fp_def)
    moreover have "0 \<le> round_fp p emin b" using 2 nn[of b] by (simp add: round_fp_def sgn_if)
    ultimately show ?thesis by simp
  next
    case 3
    with assms(1) have "\<bar>a\<bar> * 2 ^ emin \<le> \<bar>b\<bar> * 2 ^ emin" by simp
    from round_mag_mono[OF this assms(2)] have "?M a \<le> ?M b" by (simp add: divide_right_mono)
    with 3 assms(1) nn[of b] show ?thesis by (auto simp add: round_fp_def sgn_if)
  qed
qed

lemma round_mag_exact:
  assumes "0 \<le> m" "m < 2 ^ p" shows "round_mag p (of_int m * 2 ^ j) = of_int m * 2 ^ j"
proof -
  define y where "y = real_of_int m * 2 ^ j"
  define u where "u = ulp_exp p y"
  have "y < 2 ^ p * 2 ^ j"
  proof -
    have "real_of_int m < of_int (2 ^ p)" using assms(2) by (simp only: of_int_less_iff)
    then show ?thesis by (simp add: y_def)
  qed
  then have "u \<le> j" unfolding u_def by (intro ulp_exp_le) (simp add: power_add)
  then obtain d where d: "j = u + d" using le_Suc_ex by blast
  have pw: "(2::real) ^ j = 2 ^ u * 2 ^ d" by (simp add: d power_add)
  have "y / 2 ^ u = of_int (m * 2 ^ d)" by (simp add: y_def pw)
  then have "rne (y / 2 ^ u) = m * 2 ^ d" by (simp only: rne_of_int)
  then have "round_mag p y = of_int (m * 2 ^ d) * 2 ^ u"
    by (simp only: round_mag_def u_def)
  also have "\<dots> = y" by (simp add: y_def pw)
  finally show ?thesis by (simp only: y_def)
qed

lemma round_fp_exact:
  assumes "\<bar>m\<bar> < 2 ^ p" shows "round_fp p emin (of_int m * 2 ^ j / 2 ^ emin) = of_int m * 2 ^ j / 2 ^ emin"
proof -
  let ?v = "real_of_int m * 2 ^ j / 2 ^ emin"
  have "\<bar>?v\<bar> * 2 ^ emin = of_int \<bar>m\<bar> * 2 ^ j" by (simp add: abs_mult)
  moreover have "round_mag p (of_int \<bar>m\<bar> * 2 ^ j) = of_int \<bar>m\<bar> * 2 ^ j"
    using assms by (intro round_mag_exact) simp_all
  ultimately have "round_fp p emin ?v = sgn ?v * (of_int \<bar>m\<bar> * 2 ^ j / 2 ^ emin)"
    by (simp only: round_fp_def)
  also have "\<dots> = sgn (real_of_int m) * real_of_int \<bar>m\<bar> * 2 ^ j / 2 ^ emin"
    by (simp add: sgn_mult sgn_divide)
  also have "sgn (real_of_int m) * real_of_int \<bar>m\<bar> = real_of_int m"
    by (simp add: sgn_if)
  finally show ?thesis .
qed


lemma round_fp_eval:
  assumes "2 ^ p \<le> v * 2 ^ Suc j" "v * 2 ^ j < 2 ^ p" "j \<le> emin" "0 < p"
  shows "round_fp p emin v = of_int (rne (v * 2 ^ j)) / 2 ^ j"
proof -
  obtain d where d: "emin = j + d" using assms(3) le_Suc_ex by blast
  have vpos: "0 < v"
  proof (rule ccontr)
    assume "\<not> 0 < v"
    then have "v * 2 ^ Suc j \<le> 0" by (simp add: mult_le_0_iff)
    with assms(1) show False by (smt (verit) zero_less_power)
  qed
  define y where "y = v * 2 ^ emin"
  have y: "y = v * 2 ^ j * 2 ^ d" by (simp add: y_def d power_add)
  have u: "ulp_exp p y = d"
  proof (cases d)
    case 0
    with assms(2) y show ?thesis by (simp add: ulp_exp_zero)
  next
    case (Suc k)
    obtain p' where p': "p = Suc p'" using assms(4) by (cases p) auto
    have "2 ^ p' \<le> v * 2 ^ j" using assms(1) by (simp add: p')
    then have "2 ^ p' * 2 ^ Suc k \<le> y" unfolding y Suc by (intro mult_right_mono) simp_all
    then have lo: "2 ^ (p' + Suc k) \<le> y" by (simp add: power_add)
    have "y < 2 ^ p * 2 ^ Suc k" unfolding y Suc using assms(2) by (intro mult_strict_right_mono) simp_all
    then have hi: "y < 2 ^ (p' + Suc (Suc k))" by (simp add: power_add p')
    have "ulp_exp (Suc p') y = Suc k"
      using ulp_exp_eq[of "Suc p'" k y] lo hi by simp
    then show ?thesis by (simp add: p' Suc)
  qed
  have "y / 2 ^ d = v * 2 ^ j" by (simp add: y)
  then have "round_mag p y = of_int (rne (v * 2 ^ j)) * 2 ^ d"
    by (simp add: round_mag_def u)
  then have "round_fp p emin v = sgn v * (of_int (rne (v * 2 ^ j)) * 2 ^ d / 2 ^ emin)"
    by (simp add: round_fp_def y_def vpos abs_of_pos)
  also have "\<dots> = of_int (rne (v * 2 ^ j)) / 2 ^ j"
    using vpos by (simp add: d power_add)
  finally show ?thesis .
qed

lemma round32_mono: "a \<le> b \<Longrightarrow> round32 a \<le> round32 b"
  by (simp add: round32_def round_fp_mono)

lemma round64_mono: "a \<le> b \<Longrightarrow> round64 a \<le> round64 b"
  by (simp add: round64_def round_fp_mono)

lemma round_fp_dyadic:
  assumes "\<bar>n\<bar> < 2 ^ p" "k \<le> emin"
  shows "round_fp p emin (of_int n / 2 ^ k) = of_int n / 2 ^ k"
proof -
  obtain j where j: "emin = k + j" using assms(2) le_Suc_ex by blast
  have "real_of_int n / 2 ^ k = of_int n * 2 ^ j / 2 ^ emin" by (simp add: j power_add)
  with round_fp_exact[OF assms(1), of emin j] show ?thesis by simp
qed

lemma round32_dyadic:
  assumes "\<bar>n\<bar> < 2 ^ 24" "k \<le> 149" shows "round32 (of_int n / 2 ^ k) = of_int n / 2 ^ k"
  unfolding round32_def using assms by (rule round_fp_dyadic)

lemma round64_dyadic:
  assumes "\<bar>n\<bar> < 2 ^ 53" "k \<le> 1074" shows "round64 (of_int n / 2 ^ k) = of_int n / 2 ^ k"
  unfolding round64_def using assms by (rule round_fp_dyadic)

lemma round32_int: "\<bar>n\<bar> < 2 ^ 24 \<Longrightarrow> round32 (of_int n) = of_int n"
  using round32_dyadic[of n 0] by simp

lemma round64_int: "\<bar>n\<bar> < 2 ^ 53 \<Longrightarrow> round64 (of_int n) = of_int n"
  using round64_dyadic[of n 0] by simp

lemma round32_numeral: "round32 0 = 0" "round32 1 = 1" "round32 2 = 2" "round32 3 = 3" "round32 4 = 4"
  "round32 128 = 128" "round32 200 = 200" "round32 256 = 256" "round32 512 = 512" "round32 800 = 800" "round32 (15/10) = 3/2"
  using round32_int[of 0] round32_int[of 1] round32_int[of 2] round32_int[of 3] round32_int[of 4]
   round32_int[of 128] round32_int[of 200] round32_int[of 256] round32_int[of 512] round32_int[of 800] round32_dyadic[of 3 1]
  by simp_all

lemma round32_fifth: "round32 (2 / 10) = 13421773 / 2 ^ 26"
  unfolding round32_def
  by (subst round_fp_eval[where j = 26]) (simp_all add: rne_def Let_def)

lemma round32_twentieth: "round32 (5 / 100) = 13421773 / 2 ^ 28"
  unfolding round32_def
  by (subst round_fp_eval[where j = 28]) (simp_all add: rne_def Let_def)


section \<open>The star field: initial values and the effect of an update\<close>

lemma round32_c99: "round32 (99 / 200) = 16609444 / 2 ^ 25"
  unfolding round32_def
  by (subst round_fp_eval[where j = 25]) (simp_all add: rne_def Let_def)

lemma round32_speed_top: "round32 (46640661 / 2 ^ 26) = 11660165 / 2 ^ 24"
  unfolding round32_def
  by (subst round_fp_eval[where j = 24]) (simp_all add: rne_def Let_def)

lemma int_to_float_small: "\<bar>n\<bar> < 2 ^ 24 \<Longrightarrow> int_to_float n = of_int n"
  by (simp add: int_to_float_def round32_int)

lemma int_to_float_consts:
  "int_to_float 0 = 0" "int_to_float 3 = 3" "int_to_float STAR_SPREAD = 512"
  "int_to_float (c_div STAR_SPREAD 2) = 256" "int_to_float SCREEN_WIDTH = 800"
  "int_to_float (c_div SCREEN_WIDTH 2) = 400" "int_to_float (c_div SCREEN_HEIGHT 2) = 300"
  using int_to_float_small[of 0] int_to_float_small[of 3] int_to_float_small[of 512]
    int_to_float_small[of 256] int_to_float_small[of 800] int_to_float_small[of 400]
    int_to_float_small[of 300]
  by (simp_all add: STAR_SPREAD_def SCREEN_WIDTH_def SCREEN_HEIGHT_def c_div_def)

lemma init_speed_bounds:
  "2 / 10 \<le> fadd (fdiv (int_to_float (r mod 100)) (round32 200)) (round32 (2 / 10)) \<and>
   fadd (fdiv (int_to_float (r mod 100)) (round32 200)) (round32 (2 / 10)) \<le> 695 / 1000"
proof -
  define m where "m = r mod 100"
  have m: "0 \<le> m" "m \<le> 99" by (simp_all add: m_def) 
  have mf: "int_to_float m = of_int m" using m by (intro int_to_float_small) simp
  define q where "q = round32 (of_int m / 200)"
  define v where "v = fadd (fdiv (int_to_float (r mod 100)) (round32 200)) (round32 (2 / 10))"
  have q0: "0 \<le> q" using round32_mono[of 0 "of_int m / 200"] m by (simp add: q_def round32_numeral)
  have q1: "q \<le> 16609444 / 2 ^ 25"
  proof -
    have "real_of_int m / 200 \<le> 99 / 200" using m by simp
    from round32_mono[OF this] show ?thesis by (simp only: q_def round32_c99)
  qed
  have sp: "v = round32 (q + 13421773 / 2 ^ 26)"
    by (simp only: v_def fadd_def fdiv_def mf[unfolded m_def] q_def m_def
          round32_numeral round32_fifth)
  have c: "round32 (13421773 / 2 ^ 26) = 13421773 / 2 ^ 26"
    using round32_dyadic[of 13421773 26] by simp
  have "round32 (13421773 / 2 ^ 26) \<le> round32 (q + 13421773 / 2 ^ 26)"
    using q0 by (intro round32_mono) simp
  then have "13421773 / 2 ^ 26 \<le> v" by (simp only: sp c)
  then have lo: "2 / 10 \<le> v" by simp
  have "q + 13421773 / 2 ^ 26 \<le> 46640661 / 2 ^ 26" using q1 by simp
  from round32_mono[OF this] have "v \<le> 11660165 / 2 ^ 24"
    by (simp only: sp round32_speed_top)
  then have hi: "v \<le> 695 / 1000" by simp
  from lo hi show ?thesis unfolding v_def ..
qed

lemma fsub_decreases:
  assumes "0 \<le> a" "a \<le> 512" "1 / 8 < d" "d \<le> 1"
  shows "fsub a d < a"
proof -
  define n where "n = \<lceil>(a - d) * 8\<rceil>"
  have n1: "a * 8 - d * 8 \<le> of_int n" by (simp add: n_def algebra_simps)
  have n2: "of_int n < a * 8 - d * 8 + 1"
    using ceiling_correct[of "(a - d) * 8"] by (simp add: n_def algebra_simps)
  have "of_int n < (4096 :: real)" using n2 assms by linarith
  then have nu: "n < 4096" by linarith
  have "(-8 :: real) \<le> of_int n" using n1 assms by linarith
  then have nl: "-8 \<le> n" by linarith
  have ex: "round32 (of_int n / 2 ^ 3) = of_int n / 2 ^ 3"
    using nl nu by (intro round32_dyadic) simp_all
  have "a - d \<le> of_int n / 2 ^ 3" using n1 by simp
  from round32_mono[OF this] have "fsub a d \<le> of_int n / 2 ^ 3"
    by (simp only: fsub_def ex)
  moreover have "of_int n / 2 ^ 3 < a" using n2 assms(3) by simp
  ultimately show ?thesis by linarith
qed

lemma init_star_fields:
  "star_z (fst (init_star rs g)) = int_to_float (int (rs (g + 2)) mod STAR_SPREAD)"
  "speed (fst (init_star rs g)) =
     fadd (fdiv (int_to_float (int (rs (g + 3)) mod 100)) (round32 200)) (round32 (2 / 10))"
  "snd (init_star rs g) = g + 4"
  by (simp_all add: init_star_def rand_def Let_def numeral_3_eq_3 numeral_2_eq_2)

lemma init_loop_length: "length (fst (init_loop rs n g)) = n"
  by (induction n arbitrary: g) (simp_all add: split_beta Let_def)

lemma init_loop_nth: "i < n \<Longrightarrow> fst (init_loop rs n g) ! i = fst (init_star rs (g + 4 * i))"
proof (induction n arbitrary: g i)
  case 0
  then show ?case by simp
next
  case (Suc n)
  show ?case
  proof (cases i)
    case 0
    then show ?thesis by (simp add: split_beta Let_def)
  next
    case (Suc j)
    with Suc.prems have "j < n" by simp
    from Suc.IH[OF this, of "snd (init_star rs g)"] show ?thesis
      by (simp add: split_beta Let_def Suc init_star_fields(3) add.assoc)
  qed
qed

lemma update_stars_length: "length (fst (update_stars rs ss g)) = length ss"
  by (induction ss arbitrary: g) (simp_all add: split_beta Let_def)

lemma update_stars_nth:
  "i < length ss \<Longrightarrow> \<exists>g1. fst (update_stars rs ss g) ! i = fst (update_star rs (ss ! i) g1)"
proof (induction ss arbitrary: g i)
  case Nil
  then show ?case by simp
next
  case (Cons s ss)
  show ?case
  proof (cases i)
    case 0
    then show ?thesis by (auto simp add: split_beta Let_def)
  next
    case (Suc j)
    with Cons.prems have "j < length ss" by simp
    from Cons.IH[OF this, of "snd (update_star rs s g)"] show ?thesis
      by (simp add: split_beta Let_def Suc)
  qed
qed

lemma update_star_speed: "speed (fst (update_star rs s g)) = speed s"
  by (simp add: update_star_def Let_def split_beta)

lemma update_stars_speed: "map speed (fst (update_stars rs ss g)) = map speed ss"
  by (induction ss arbitrary: g) (simp_all add: split_beta Let_def update_star_speed)

lemma update_star_respawn:
  assumes "fsub (star_z s) (speed s) \<le> 0"
  shows "update_star rs s g =
           (s\<lparr>star_x := fsub (int_to_float (fst (rand rs g) mod STAR_SPREAD)) 256,
              star_y := fsub (int_to_float (fst (rand rs (Suc g)) mod STAR_SPREAD)) 256,
              star_z := 512\<rparr>, g + 2)"
  using assms by (simp add: update_star_def Let_def rand_def int_to_float_consts)

lemma update_star_advance:
  assumes "\<not> fsub (star_z s) (speed s) \<le> 0"
  shows "update_star rs s g = (s\<lparr>star_z := fsub (star_z s) (speed s)\<rparr>, g)"
  using assms by (simp add: update_star_def Let_def int_to_float_consts)

lemma update_star_depth:
  assumes "0 \<le> star_z s" "star_z s \<le> 512" "1 / 8 < speed s" "speed s \<le> 1"
  shows "0 < star_z (fst (update_star rs s g)) \<and> star_z (fst (update_star rs s g)) \<le> 512 \<and>
         (star_z (fst (update_star rs s g)) < star_z s \<or> star_z (fst (update_star rs s g)) = 512)"
proof (cases "fsub (star_z s) (speed s) \<le> 0")
  case True
  then show ?thesis by (simp add: update_star_respawn)
next
  case False
  with fsub_decreases[OF assms] show ?thesis
    using assms(2) by (simp add: update_star_advance)
qed

lemma init_stars_length: "length (fst (init_stars rs)) = NUM_STARS"
  by (simp add: init_stars_def init_loop_length)

lemma init_stars_nth:
  "i < NUM_STARS \<Longrightarrow> fst (init_stars rs) ! i = fst (init_star rs (4 * i))"
  by (simp add: init_stars_def init_loop_nth)

lemma init_star_depth:
  "0 \<le> star_z (fst (init_star rs g)) \<and> star_z (fst (init_star rs g)) \<le> 511"
proof -
  define m where "m = int (rs (g + 2)) mod STAR_SPREAD"
  have m: "0 \<le> m" "m \<le> 511" by (simp_all add: m_def STAR_SPREAD_def)
  then have "int_to_float m = of_int m" by (intro int_to_float_small) simp
  with m show ?thesis by (simp add: init_star_fields m_def)
qed

lemma run_updates_length: "length (fst (run_updates rs n)) = NUM_STARS"
  by (induction n) (simp_all add: init_stars_length update_stars_length)

lemma run_updates_speed:
  "map speed (fst (run_updates rs n)) = map speed (fst (init_stars rs))"
  by (induction n) (simp_all add: update_stars_speed)

lemma run_updates_speed_nth:
  assumes "i < NUM_STARS"
  shows "speed (fst (run_updates rs n) ! i) = speed (fst (init_stars rs) ! i)"
proof -
  have "map speed (fst (run_updates rs n)) ! i = map speed (fst (init_stars rs)) ! i"
    by (simp only: run_updates_speed)
  with assms show ?thesis by (simp add: run_updates_length init_stars_length)
qed

lemma init_speed_nth:
  assumes "i < NUM_STARS"
  shows "2 / 10 \<le> speed (fst (init_stars rs) ! i) \<and> speed (fst (init_stars rs) ! i) \<le> 695 / 1000"
  using init_speed_bounds[of "int (rs (4 * i + 3))"]
  by (simp only: init_stars_nth[OF assms] init_star_fields(2))

lemma run_updates_depth:
  assumes "i < NUM_STARS"
  shows "0 \<le> star_z (fst (run_updates rs n) ! i) \<and> star_z (fst (run_updates rs n) ! i) \<le> 512 \<and>
         (0 < n \<longrightarrow> 0 < star_z (fst (run_updates rs n) ! i))"
proof (induction n)
  case 0
  from init_star_depth[of rs "4 * i"] show ?case
    by (simp add: init_stars_nth[OF assms])
next
  case (Suc n)
  let ?s = "fst (run_updates rs n) ! i"
  have sp: "1 / 8 < speed ?s" "speed ?s \<le> 1"
    using init_speed_nth[OF assms, of rs] run_updates_speed_nth[OF assms, of rs n] by simp_all
  have "i < length (fst (run_updates rs n))" using assms by (simp add: run_updates_length)
  from update_stars_nth[OF this, of rs "snd (run_updates rs n)"]
  obtain g1 where g1: "fst (run_updates rs (Suc n)) ! i = fst (update_star rs ?s g1)" by auto
  from Suc.IH have "0 \<le> star_z ?s" "star_z ?s \<le> 512" by simp_all
  from update_star_depth[OF this sp, of rs g1] show ?case unfolding g1 by simp
qed

lemma run_updates_step:
  assumes "i < NUM_STARS"
  shows "star_z (fst (run_updates rs (Suc n)) ! i) < star_z (fst (run_updates rs n) ! i) \<or>
         star_z (fst (run_updates rs (Suc n)) ! i) = 512"
proof -
  let ?s = "fst (run_updates rs n) ! i"
  have sp: "1 / 8 < speed ?s" "speed ?s \<le> 1"
    using init_speed_nth[OF assms, of rs] run_updates_speed_nth[OF assms, of rs n] by simp_all
  have "i < length (fst (run_updates rs n))" using assms by (simp add: run_updates_length)
  from update_stars_nth[OF this, of rs "snd (run_updates rs n)"]
  obtain g1 where g1: "fst (run_updates rs (Suc n)) ! i = fst (update_star rs ?s g1)" by auto
  from run_updates_depth[OF assms, of rs n] have "0 \<le> star_z ?s" "star_z ?s \<le> 512" by simp_all
  from update_star_depth[OF this sp, of rs g1] show ?thesis unfolding g1 by simp
qed


lemma run_updates_step_exact:
  assumes "i < NUM_STARS"
  shows "star_z (fst (run_updates rs (Suc n)) ! i) =
           (if fsub (star_z (fst (run_updates rs n) ! i)) (speed (fst (run_updates rs n) ! i)) \<le> 0
            then 512
            else fsub (star_z (fst (run_updates rs n) ! i)) (speed (fst (run_updates rs n) ! i)))"
proof -
  let ?s = "fst (run_updates rs n) ! i"
  have "i < length (fst (run_updates rs n))" using assms by (simp add: run_updates_length)
  from update_stars_nth[OF this, of rs "snd (run_updates rs n)"]
  obtain g1 where g1: "fst (run_updates rs (Suc n)) ! i = fst (update_star rs ?s g1)" by auto
  show ?thesis
  proof (cases "fsub (star_z ?s) (speed ?s) \<le> 0")
    case True
    then show ?thesis unfolding g1 by (simp add: update_star_respawn)
  next
    case False
    then show ?thesis unfolding g1 by (simp add: update_star_advance)
  qed
qed

lemma spread_real: "real_of_int STAR_SPREAD = 512"
  by (simp add: STAR_SPREAD_def)

section \<open>Claims about the star field\<close>

text \<open>
  Claim C2. For every star \<open>i\<close> of the array filled by \<^verbatim>\<open>init_stars\<close> and every number
  \<open>n \<ge> 1\<close> of subsequent calls of \<^verbatim>\<open>update_stars\<close>, the depth of the star after the
  \<open>n\<close>-th call is greater than 0 and at most \<^verbatim>\<open>STAR_SPREAD\<close>. Whenever the decremented
  depth is 0 or less, the same call sets the depth to \<^verbatim>\<open>STAR_SPREAD\<close> and x and y to
  values computed from the next two draws of \<^verbatim>\<open>rand()\<close>.
\<close>

theorem star_depth_respawn_invariant:
  "(1 \<le> n \<and> i < NUM_STARS \<longrightarrow>
      0 < star_z (fst (run_updates rs n) ! i) \<and>
      star_z (fst (run_updates rs n) ! i) \<le> of_int STAR_SPREAD) \<and>
   (fsub (star_z s) (speed s) \<le> 0 \<longrightarrow>
      update_star rs s g =
        (s\<lparr>star_x := fsub (int_to_float (fst (rand rs g) mod STAR_SPREAD))
                         (int_to_float (c_div STAR_SPREAD 2)),
           star_y := fsub (int_to_float (fst (rand rs (Suc g)) mod STAR_SPREAD))
                         (int_to_float (c_div STAR_SPREAD 2)),
           star_z := of_int STAR_SPREAD\<rparr>, g + 2))"
proof (intro conjI impI)
  assume h: "1 \<le> n \<and> i < NUM_STARS"
  then have "i < NUM_STARS" "0 < n" by simp_all
  with run_updates_depth[of i rs n]
  show "0 < star_z (fst (run_updates rs n) ! i)"
    and "star_z (fst (run_updates rs n) ! i) \<le> of_int STAR_SPREAD"
    by (simp_all add: STAR_SPREAD_def)
next
  assume "fsub (star_z s) (speed s) \<le> 0"
  from update_star_respawn[OF this, of rs g] show "update_star rs s g =
        (s\<lparr>star_x := fsub (int_to_float (fst (rand rs g) mod STAR_SPREAD))
                         (int_to_float (c_div STAR_SPREAD 2)),
           star_y := fsub (int_to_float (fst (rand rs (Suc g)) mod STAR_SPREAD))
                         (int_to_float (c_div STAR_SPREAD 2)),
           star_z := of_int STAR_SPREAD\<rparr>, g + 2)"
    by (simp only: int_to_float_consts spread_real)
qed

text \<open>
  The statement applied to the first star after one update, and to a star at depth 0
  with speed 1, which respawns.
\<close>

lemma fsub_0_1: "fsub 0 1 = -1"
  using round32_int[of "-1"] by (simp add: fsub_def)

theorem star_depth_respawn_invariant_witness:
  "(1::nat) \<le> 1 \<and> 0 < NUM_STARS \<and>
   0 < star_z (fst (run_updates (const_rand 0) 1) ! 0) \<and>
   star_z (fst (run_updates (const_rand 0) 1) ! 0) \<le> of_int STAR_SPREAD \<and>
   fsub (star_z \<lparr>star_x = 0, star_y = 0, star_z = 0, speed = 1\<rparr>)
        (speed \<lparr>star_x = 0, star_y = 0, star_z = 0, speed = 1\<rparr>) \<le> 0 \<and>
   update_star (const_rand 0) \<lparr>star_x = 0, star_y = 0, star_z = 0, speed = 1\<rparr> 0 =
     (\<lparr>star_x = - 256, star_y = - 256, star_z = 512, speed = 1\<rparr>, 2)"
proof -
  have h1: "(1::nat) \<le> 1 \<and> 0 < NUM_STARS" by (simp add: NUM_STARS_def)
  have h2: "fsub (star_z \<lparr>star_x = 0, star_y = 0, star_z = 0, speed = 1\<rparr>)
        (speed \<lparr>star_x = 0, star_y = 0, star_z = 0, speed = 1\<rparr>) \<le> 0"
    by (simp add: fsub_0_1)
  have m: "fsub 0 256 = - 256" using round32_int[of "-256"] by (simp add: fsub_def)
  from star_depth_respawn_invariant[of 1 0 "const_rand 0" "\<lparr>star_x = 0, star_y = 0, star_z = 0, speed = 1\<rparr>" 0]
    h1 h2
  show ?thesis
    by (simp add: rand_def const_rand_def int_to_float_consts spread_real m)
qed

text \<open>
  Claim C10. The speed of every star is set by \<^verbatim>\<open>init_stars\<close> to a value between 0.2
  and 0.695; \<^verbatim>\<open>update_stars\<close> leaves the speed of every star as it is, so after any
  number of updates the speed is still the initial one, and it is positive. Each update
  therefore makes the depth of a star strictly smaller, unless it respawns the star at
  depth \<^verbatim>\<open>STAR_SPREAD\<close>; the new depth is \<^verbatim>\<open>STAR_SPREAD\<close> exactly when the decremented
  depth is 0 or less, and the decremented depth otherwise.
\<close>

theorem star_speed_fixed_and_positive:
  "i < NUM_STARS \<longrightarrow>
     2 / 10 \<le> speed (fst (init_stars rs) ! i) \<and>
     speed (fst (init_stars rs) ! i) \<le> 695 / 1000 \<and>
     map speed (fst (update_stars rs ss g)) = map speed ss \<and>
     speed (fst (run_updates rs n) ! i) = speed (fst (init_stars rs) ! i) \<and>
     0 < speed (fst (run_updates rs n) ! i) \<and>
     (star_z (fst (run_updates rs (Suc n)) ! i) < star_z (fst (run_updates rs n) ! i) \<or>
      star_z (fst (run_updates rs (Suc n)) ! i) = of_int STAR_SPREAD) \<and>
     star_z (fst (run_updates rs (Suc n)) ! i) =
       (if fsub (star_z (fst (run_updates rs n) ! i)) (speed (fst (run_updates rs n) ! i)) \<le> 0
        then of_int STAR_SPREAD
        else fsub (star_z (fst (run_updates rs n) ! i)) (speed (fst (run_updates rs n) ! i)))"
proof
  assume i: "i < NUM_STARS"
  from init_speed_nth[OF i, of rs] have b: "2 / 10 \<le> speed (fst (init_stars rs) ! i)"
    "speed (fst (init_stars rs) ! i) \<le> 695 / 1000" by simp_all
  note e = run_updates_speed_nth[OF i, of rs n]
  from b(1) e have p: "0 < speed (fst (run_updates rs n) ! i)" by simp
  from run_updates_step[OF i, of rs n]
  have d: "star_z (fst (run_updates rs (Suc n)) ! i) < star_z (fst (run_updates rs n) ! i) \<or>
      star_z (fst (run_updates rs (Suc n)) ! i) = of_int STAR_SPREAD"
    by (simp add: STAR_SPREAD_def)
  have x: "star_z (fst (run_updates rs (Suc n)) ! i) =
       (if fsub (star_z (fst (run_updates rs n) ! i)) (speed (fst (run_updates rs n) ! i)) \<le> 0
        then of_int STAR_SPREAD
        else fsub (star_z (fst (run_updates rs n) ! i)) (speed (fst (run_updates rs n) ! i)))"
    by (simp only: run_updates_step_exact[OF i] spread_real)
  from b e p d x update_stars_speed[of rs ss g]
  show "2 / 10 \<le> speed (fst (init_stars rs) ! i) \<and>
     speed (fst (init_stars rs) ! i) \<le> 695 / 1000 \<and>
     map speed (fst (update_stars rs ss g)) = map speed ss \<and>
     speed (fst (run_updates rs n) ! i) = speed (fst (init_stars rs) ! i) \<and>
     0 < speed (fst (run_updates rs n) ! i) \<and>
     (star_z (fst (run_updates rs (Suc n)) ! i) < star_z (fst (run_updates rs n) ! i) \<or>
      star_z (fst (run_updates rs (Suc n)) ! i) = of_int STAR_SPREAD) \<and>
     star_z (fst (run_updates rs (Suc n)) ! i) =
       (if fsub (star_z (fst (run_updates rs n) ! i)) (speed (fst (run_updates rs n) ! i)) \<le> 0
        then of_int STAR_SPREAD
        else fsub (star_z (fst (run_updates rs n) ! i)) (speed (fst (run_updates rs n) ! i)))"
    by (intro conjI)
qed

text \<open>The statement for the first star, with a constant random sequence.\<close>

theorem star_speed_fixed_and_positive_witness:
  "0 < NUM_STARS \<and>
     2 / 10 \<le> speed (fst (init_stars (const_rand 7)) ! 0) \<and>
     speed (fst (init_stars (const_rand 7)) ! 0) \<le> 695 / 1000 \<and>
     speed (fst (run_updates (const_rand 7) 3) ! 0) = speed (fst (init_stars (const_rand 7)) ! 0) \<and>
     (star_z (fst (run_updates (const_rand 7) (Suc 3)) ! 0) < star_z (fst (run_updates (const_rand 7) 3) ! 0) \<or>
      star_z (fst (run_updates (const_rand 7) (Suc 3)) ! 0) = of_int STAR_SPREAD)"
proof -
  have h: "0 < NUM_STARS" by (simp add: NUM_STARS_def)
  from star_speed_fixed_and_positive[of 0 "const_rand 7" "[]" 0 3] h show ?thesis by blast
qed


lemma star_size_unfold: "star_size zz = round32 (round32 (1 - round32 (zz / 512)) * 3)"
  by (simp add: star_size_def fmul_def fsub_def fdiv_def int_to_float_consts round32_numeral)

lemma star_size_antimono: assumes "a \<le> b" shows "star_size b \<le> star_size a"
proof -
  have "a / 512 \<le> b / 512" using assms by simp
  from round32_mono[OF this] have "1 - round32 (b / 512) \<le> 1 - round32 (a / 512)" by simp
  from round32_mono[OF this]
  have "round32 (1 - round32 (b / 512)) * 3 \<le> round32 (1 - round32 (a / 512)) * 3" by simp
  from round32_mono[OF this] show ?thesis by (simp only: star_size_unfold)
qed

lemma star_size_range: assumes "0 \<le> zz" "zz \<le> 512" shows "0 \<le> star_size zz \<and> star_size zz \<le> 3"
proof -
  have "0 \<le> zz / 512" "zz / 512 \<le> 1" using assms by simp_all
  from round32_mono[OF this(1)] round32_mono[OF this(2)]
  have "0 \<le> 1 - round32 (zz / 512)" "1 - round32 (zz / 512) \<le> 1"
    by (simp_all add: round32_numeral)
  from round32_mono[OF this(1)] round32_mono[OF this(2)]
  have "0 \<le> round32 (1 - round32 (zz / 512)) * 3" "round32 (1 - round32 (zz / 512)) * 3 \<le> 3"
    by (simp_all add: round32_numeral)
  from round32_mono[OF this(1)] round32_mono[OF this(2)]
  show ?thesis by (simp add: star_size_unfold round32_numeral)
qed

lemma fp_to_int_floor: assumes "0 \<le> v" "v < 2 ^ 31" shows "fp_to_int v = \<lfloor>v\<rfloor>"
proof -
  have "\<lfloor>v\<rfloor> < 2 ^ 31" using assms(2) by (simp add: floor_less_iff)
  moreover have "0 \<le> \<lfloor>v\<rfloor>" using assms(1) by simp
  ultimately show ?thesis using assms(1) by (simp add: fp_to_int_def trunc_zero_def Let_def)
qed

lemma star_size_px_floor: assumes "0 \<le> zz" "zz \<le> 512" shows "star_size_px zz = \<lfloor>star_size zz\<rfloor>"
  using star_size_range[OF assms] by (simp add: star_size_px_def fp_to_int_floor)

lemma star_size_at_1: "star_size 1 = 1533 / 512"
proof -
  have a: "round32 (1 / 512) = 1 / 512" using round32_dyadic[of 1 9] by simp
  have b: "round32 (511 / 512) = 511 / 512" using round32_dyadic[of 511 9] by simp
  have c: "round32 (1533 / 512) = 1533 / 512" using round32_dyadic[of 1533 9] by simp
  show ?thesis by (simp add: star_size_unfold a b c)
qed

lemma star_size_at_2: "star_size 2 = 765 / 256"
proof -
  have a: "round32 (1 / 256) = 1 / 256" using round32_dyadic[of 1 8] by simp
  have b: "round32 (255 / 256) = 255 / 256" using round32_dyadic[of 255 8] by simp
  have c: "round32 (765 / 256) = 765 / 256" using round32_dyadic[of 765 8] by simp
  show ?thesis by (simp add: star_size_unfold a b c)
qed

lemma round32_below_one: "round32 (1 - 1 / 2 ^ 39) = 1"
proof -
  have "round_fp 24 149 (1 - 1 / 2 ^ 39) = of_int (rne ((1 - 1 / 2 ^ 39) * 2 ^ 24)) / 2 ^ 24"
    by (rule round_fp_eval) simp_all
  moreover have "rne ((1 - 1 / 2 ^ 39) * 2 ^ 24) = 2 ^ 24"
    by (simp add: rne_def Let_def)
  ultimately show ?thesis by (simp add: round32_def)
qed

lemma round32_below_one_38: "round32 (1 - 1 / 2 ^ 38) = 1"
proof -
  have "round_fp 24 149 (1 - 1 / 2 ^ 38) = of_int (rne ((1 - 1 / 2 ^ 38) * 2 ^ 24)) / 2 ^ 24"
    by (rule round_fp_eval) simp_all
  moreover have "rne ((1 - 1 / 2 ^ 38) * 2 ^ 24) = 2 ^ 24"
    by (simp add: rne_def Let_def)
  ultimately show ?thesis by (simp add: round32_def)
qed

lemma star_size_tiny: "star_size (1 / 2 ^ 30) = 3" "star_size (1 / 2 ^ 29) = 3"
proof -
  have a: "round32 (1 / 2 ^ 39) = 1 / 2 ^ 39" using round32_dyadic[of 1 39] by simp
  have b: "round32 (1 / 2 ^ 38) = 1 / 2 ^ 38" using round32_dyadic[of 1 38] by simp
  have c: "(1 / 2 ^ 30 :: real) / 512 = 1 / 2 ^ 39" "(1 / 2 ^ 29 :: real) / 512 = 1 / 2 ^ 38" by simp_all
  show "star_size (1 / 2 ^ 30) = 3"
    by (simp only: star_size_unfold c a round32_below_one) (simp add: round32_numeral)
  show "star_size (1 / 2 ^ 29) = 3"
    by (simp only: star_size_unfold c b round32_below_one_38) (simp add: round32_numeral)
qed

text \<open>
  Claim C8 says that for depths \<open>0 < z1 < z2 \<le> STAR_SPREAD\<close> the point drawn at \<open>z1\<close>
  is strictly larger than the one drawn at \<open>z2\<close>. The side of the rectangle handed to SDL
  is \<^verbatim>\<open>(int)size\<close>; at depths 1 and 2 it is 2 pixels both times (the \<^verbatim>\<open>float\<close> sizes are
  1533/512 and 765/256). The \<^verbatim>\<open>float\<close> value \<^verbatim>\<open>size\<close> itself stops growing close to the
  camera: at depths \<open>2 ^ -30\<close> and \<open>2 ^ -29\<close> it is 3 both times.
\<close>

theorem star_size_strict_counterexample:
  "(0::real) < 1 \<and> (1::real) < 2 \<and> 2 \<le> real_of_int STAR_SPREAD \<and>
   star_size_px 1 = 2 \<and> star_size_px 2 = 2 \<and> \<not> star_size_px 2 < star_size_px 1 \<and>
   (0::real) < 1 / 2 ^ 30 \<and> (1::real) / 2 ^ 30 < 1 / 2 ^ 29 \<and>
   1 / 2 ^ 29 \<le> real_of_int STAR_SPREAD \<and>
   star_size (1 / 2 ^ 30) = 3 \<and> star_size (1 / 2 ^ 29) = 3 \<and>
   \<not> star_size (1 / 2 ^ 29) < star_size (1 / 2 ^ 30)"
proof -
  have "star_size_px 1 = 2"
    using star_size_px_floor[of 1] by (simp add: star_size_at_1)
  moreover have "star_size_px 2 = 2"
    using star_size_px_floor[of 2] by (simp add: star_size_at_2)
  ultimately show ?thesis using star_size_tiny by (simp add: spread_real)
qed

text \<open>
  Claim C8, amended. For depths \<open>0 < z1 < z2 \<le> STAR_SPREAD\<close> the size at \<open>z1\<close> is at
  least the size at \<open>z2\<close>, for the \<^verbatim>\<open>float\<close> value \<^verbatim>\<open>size\<close> and for the side \<^verbatim>\<open>(int)size\<close>
  of the drawn rectangle alike, and neither exceeds 3.
\<close>

theorem star_size_monotone:
  "0 < z1 \<and> z1 < z2 \<and> z2 \<le> real_of_int STAR_SPREAD \<longrightarrow>
     star_size z2 \<le> star_size z1 \<and> star_size_px z2 \<le> star_size_px z1 \<and>
     star_size z1 \<le> 3 \<and> star_size_px z1 \<le> 3"
proof
  assume h: "0 < z1 \<and> z1 < z2 \<and> z2 \<le> real_of_int STAR_SPREAD"
  then have b: "0 \<le> z1" "z1 \<le> 512" "0 \<le> z2" "z2 \<le> 512" "z1 \<le> z2"
    by (simp_all add: spread_real)
  have m: "star_size z2 \<le> star_size z1" using b(5) by (rule star_size_antimono)
  then have "\<lfloor>star_size z2\<rfloor> \<le> \<lfloor>star_size z1\<rfloor>" by (rule floor_mono)
  then have p: "star_size_px z2 \<le> star_size_px z1"
    by (simp only: star_size_px_floor[OF b(1,2)] star_size_px_floor[OF b(3,4)])
  have c: "star_size z1 \<le> 3" using star_size_range[OF b(1,2)] by simp
  then have "\<lfloor>star_size z1\<rfloor> \<le> 3" by (simp add: floor_le_iff)
  then have "star_size_px z1 \<le> 3" by (simp only: star_size_px_floor[OF b(1,2)])
  with m p c show "star_size z2 \<le> star_size z1 \<and> star_size_px z2 \<le> star_size_px z1 \<and>
     star_size z1 \<le> 3 \<and> star_size_px z1 \<le> 3" by simp
qed

text \<open>The amended statement at depths 1 and 2.\<close>

theorem star_size_monotone_witness:
  "(0::real) < 1 \<and> (1::real) < 2 \<and> 2 \<le> real_of_int STAR_SPREAD \<and>
     star_size 2 \<le> star_size 1 \<and> star_size_px 2 \<le> star_size_px 1 \<and>
     star_size 1 \<le> 3 \<and> star_size_px 1 \<le> 3"
  using star_size_monotone[of 1 2] by (simp add: spread_real)


lemma render_star_no_fault: "\<exists>r. render_star s = Inr r"
  by (simp add: render_star_def fdiv_checked_def int_to_float_consts Let_def)

lemma render_star_skips: "star_z s \<le> 0 \<Longrightarrow> render_star s = Inr None"
  by (simp add: render_star_def int_to_float_consts)

lemma render_stars_no_fault: "\<exists>q. render_stars ss = Inr q"
proof (induction ss)
  case Nil
  then show ?case by simp
next
  case (Cons s ss)
  from render_star_no_fault[of s] obtain r where "render_star s = Inr r" ..
  moreover from Cons obtain q where "render_stars ss = Inr q" ..
  ultimately show ?case by simp
qed

lemma init_depth_zero:
  assumes "i < NUM_STARS" "rs (4 * i + 2) mod 512 = 0"
  shows "star_z (fst (init_stars rs) ! i) = 0"
proof -
  have "int (rs (4 * i + 2)) mod STAR_SPREAD = int (rs (4 * i + 2) mod 512)"
    by (simp add: STAR_SPREAD_def zmod_int)
  with assms(2) show ?thesis
    by (simp add: init_stars_nth[OF assms(1)] init_star_fields int_to_float_consts)
qed

lemma first_update_respawns:
  assumes "i < NUM_STARS" "star_z (fst (init_stars rs) ! i) = 0"
  shows "star_z (fst (run_updates rs 1) ! i) = 512"
proof -
  let ?s = "fst (init_stars rs) ! i"
  have "i < length (fst (init_stars rs))" using assms(1) by (simp add: init_stars_length)
  from update_stars_nth[OF this, of rs "snd (init_stars rs)"]
  obtain g1 where g1: "fst (run_updates rs 1) ! i = fst (update_star rs ?s g1)" by auto
  have "0 - speed ?s \<le> 0" using init_speed_nth[OF assms(1), of rs] by simp
  from round32_mono[OF this] have "fsub (star_z ?s) (speed ?s) \<le> 0"
    by (simp add: fsub_def assms(2) round32_numeral)
  from update_star_respawn[OF this, of rs g1] show ?thesis unfolding g1 by simp
qed

text \<open>
  Claim C9. Rendering a star never divides by zero: \<^verbatim>\<open>128.0f / stars[i].z\<close> is evaluated
  under the guard \<^verbatim>\<open>stars[i].z > 0\<close> only, so \<^verbatim>\<open>render_stars\<close> returns without a fault for
  every array, and a star of depth 0 or less is skipped. \<^verbatim>\<open>init_stars\<close> gives star \<open>i\<close>
  the depth 0 when its third draw is a multiple of 512; such a star is skipped by
  rendering, and the first call of \<^verbatim>\<open>update_stars\<close> respawns it at depth \<^verbatim>\<open>STAR_SPREAD\<close>.
\<close>

theorem perspective_divide_guarded:
  "(\<exists>r. render_star s = Inr r) \<and> (\<exists>q. render_stars ss = Inr q) \<and>
   (star_z s \<le> 0 \<longrightarrow> render_star s = Inr None) \<and>
   (i < NUM_STARS \<and> rs (4 * i + 2) mod 512 = 0 \<longrightarrow>
      star_z (fst (init_stars rs) ! i) = 0 \<and>
      render_star (fst (init_stars rs) ! i) = Inr None \<and>
      star_z (fst (run_updates rs 1) ! i) = of_int STAR_SPREAD)"
proof (intro conjI impI)
  show "\<exists>r. render_star s = Inr r" by (rule render_star_no_fault)
  show "\<exists>q. render_stars ss = Inr q" by (rule render_stars_no_fault)
next
  assume "star_z s \<le> 0"
  then show "render_star s = Inr None" by (rule render_star_skips)
next
  assume h: "i < NUM_STARS \<and> rs (4 * i + 2) mod 512 = 0"
  then have z: "star_z (fst (init_stars rs) ! i) = 0" by (simp add: init_depth_zero)
  then show "star_z (fst (init_stars rs) ! i) = 0" .
  from z show "render_star (fst (init_stars rs) ! i) = Inr None" by (simp add: render_star_skips)
  from h z show "star_z (fst (run_updates rs 1) ! i) = of_int STAR_SPREAD"
    by (simp only: first_update_respawns spread_real)
qed

text \<open>
  The statement for a star at depth 0, and for the first star when every draw is 1024.
\<close>

theorem perspective_divide_guarded_witness:
  "star_z \<lparr>star_x = 5, star_y = 5, star_z = 0, speed = 1\<rparr> \<le> 0 \<and>
   render_star \<lparr>star_x = 5, star_y = 5, star_z = 0, speed = 1\<rparr> = Inr None \<and>
   0 < NUM_STARS \<and> (const_rand 1024) (4 * 0 + 2) mod 512 = (0::nat) \<and>
   star_z (fst (init_stars (const_rand 1024)) ! 0) = 0 \<and>
   render_star (fst (init_stars (const_rand 1024)) ! 0) = Inr None \<and>
   star_z (fst (run_updates (const_rand 1024) 1) ! 0) = of_int STAR_SPREAD"
proof -
  have h: "0 < NUM_STARS" by (simp add: NUM_STARS_def)
  from perspective_divide_guarded[of "\<lparr>star_x = 5, star_y = 5, star_z = 0, speed = 1\<rparr>" "[]" 0 "const_rand 1024"] h
  show ?thesis by (simp add: const_rand_def)
qed


section \<open>Claims about the scroll offset\<close>

lemma fsub_half_step:
  assumes "\<bar>k - 3\<bar> < 2 ^ 24"
  shows "fsub (of_int k / 2) (round32 (15 / 10)) = of_int k / 2 - 3 / 2"
proof -
  have "real_of_int k / 2 - 3 / 2 = of_int (k - 3) / 2 ^ 1" by (simp add: diff_divide_distrib)
  moreover have "round32 (of_int (k - 3) / 2 ^ 1) = of_int (k - 3) / 2 ^ 1"
    using assms by (intro round32_dyadic) simp_all
  ultimately show ?thesis by (simp only: fsub_def round32_numeral)
qed

lemma scroll_update_half:
  assumes "\<bar>k - 3\<bar> < 2 ^ 24" "\<bar>textW\<bar> < 2 ^ 24"
  shows "scroll_update textW (of_int k / 2) =
           (if real_of_int k / 2 - 3 / 2 < - real_of_int textW then 800
            else real_of_int k / 2 - 3 / 2)"
proof -
  have "int_to_float (- textW) = - of_int textW"
    using assms(2) int_to_float_small[of "- textW"] by simp
  then show ?thesis
    by (simp only: scroll_update_def fsub_half_step[OF assms(1)] Let_def int_to_float_consts)
qed

lemma scroll_after_half:
  assumes "0 \<le> textW" "textW < 2 ^ 23 - 3"
  shows "\<exists>k. scroll_after textW n = of_int k / 2 \<and> - 2 * textW - 3 \<le> k \<and> k \<le> 1600"
proof (induction n)
  case 0
  have "scroll_after textW 0 = of_int 1600 / 2" by (simp add: int_to_float_consts)
  with assms(1) show ?case by (intro exI[of _ 1600]) simp
next
  case (Suc n)
  then obtain k where k: "scroll_after textW n = of_int k / 2" "- 2 * textW - 3 \<le> k" "k \<le> 1600"
    by auto
  have b: "\<bar>k - 3\<bar> < 2 ^ 24" "\<bar>textW\<bar> < 2 ^ 24" using k(2,3) assms by simp_all
  show ?case
  proof (cases "real_of_int k / 2 - 3 / 2 < - of_int textW")
    case True
    then have "scroll_after textW (Suc n) = of_int 1600 / 2"
      by (simp add: k(1) scroll_update_half[OF b])
    with assms(1) show ?thesis by (intro exI[of _ 1600]) simp
  next
    case False
    then have "scroll_after textW (Suc n) = of_int (k - 3) / 2"
      by (simp add: k(1) scroll_update_half[OF b] diff_divide_distrib)
    moreover have "- 2 * textW \<le> k - 3"
    proof -
      from False have "- real_of_int textW \<le> real_of_int k / 2 - 3 / 2" by simp
      then have "real_of_int (- 2 * textW) \<le> real_of_int (k - 3)" by simp
      then show ?thesis by (simp only: of_int_le_iff)
    qed
    ultimately show ?thesis using k(3) by (intro exI[of _ "k - 3"]) simp
  qed
qed

lemma scroll_after_step:
  assumes "0 \<le> textW" "textW < 2 ^ 23 - 3"
  shows "scroll_after textW (Suc n) =
           (if scroll_after textW n - 3 / 2 < - of_int textW then 800
            else scroll_after textW n - 3 / 2)"
proof -
  from scroll_after_half[OF assms, of n]
  obtain k where k: "scroll_after textW n = of_int k / 2" "- 2 * textW - 3 \<le> k" "k \<le> 1600"
    by auto
  have b: "\<bar>k - 3\<bar> < 2 ^ 24" "\<bar>textW\<bar> < 2 ^ 24" using k(2,3) assms by simp_all
  show ?thesis by (simp only: scroll_after.simps k(1) scroll_update_half[OF b])
qed

lemma scroll_after_400: "n \<le> 800 \<Longrightarrow> scroll_after 400 n = 800 - 3 / 2 * real n"
proof (induction n)
  case 0
  then show ?case by (simp add: int_to_float_consts)
next
  case (Suc n)
  then have ih: "scroll_after 400 n = 800 - 3 / 2 * real n" and n: "n < 800" by simp_all
  have "\<not> (800 - 3 / 2 * real n - 3 / 2 < - 400)" using n by simp
  with scroll_after_step[of 400 n] ih
  have "scroll_after 400 (Suc n) = 800 - 3 / 2 * real n - 3 / 2"
    by (simp del: scroll_after.simps)
  moreover have "800 - 3 / 2 * real n - 3 / 2 = 800 - 3 / 2 * real (Suc n)"
    by (simp add: field_simps)
  ultimately show ?case by (simp only:)
qed

text \<open>
  Claim C3 says that with text width 400 the offset first passes below -400 after exactly
  800 passes and is reset on that pass. After 800 passes the offset is exactly -400, which
  is not below -400, and nothing is reset.
\<close>

theorem scroll_tick_800_counterexample:
  "scroll_after 400 800 = - 400 \<and> \<not> scroll_after 400 800 < - 400 \<and> scroll_after 400 800 \<noteq> 800"
  using scroll_after_400[of 800] by simp

text \<open>
  Claim C3, amended. Starting from offset 800 with step 1.5 and text width 400, the offset
  after \<open>n \<le> 800\<close> passes is \<open>800 - 1.5 n\<close>, never below -400; after 800 passes it is
  exactly -400. The decrement of pass 801 takes it below -400, and that pass resets it
  to 800.
\<close>

theorem scroll_first_wrap_tick_801:
  "(n \<le> 800 \<longrightarrow> scroll_after 400 n = 800 - 3 / 2 * real n \<and> - 400 \<le> scroll_after 400 n) \<and>
   fsub (scroll_after 400 800) (round32 (15 / 10)) < int_to_float (- 400) \<and>
   scroll_after 400 801 = 800"
proof (intro conjI impI)
  assume n: "n \<le> 800"
  then show "scroll_after 400 n = 800 - 3 / 2 * real n" by (rule scroll_after_400)
  with n show "- 400 \<le> scroll_after 400 n" by simp
next
  have e: "scroll_after 400 800 = of_int (- 800) / 2" using scroll_after_400[of 800] by simp
  have "fsub (scroll_after 400 800) (round32 (15 / 10)) = - 803 / 2"
    unfolding e by (subst fsub_half_step) simp_all
  moreover have "int_to_float (- 400) = - 400" using int_to_float_small[of "- 400"] by simp
  ultimately show "fsub (scroll_after 400 800) (round32 (15 / 10)) < int_to_float (- 400)" by simp
next
  have "scroll_after 400 801 = scroll_after 400 (Suc 800)" by simp
  also have "\<dots> = 800"
    by (subst scroll_after_step) (simp_all del: scroll_after.simps add: scroll_after_400)
  finally show "scroll_after 400 801 = 800" .
qed

text \<open>The amended statement at pass 800.\<close>

theorem scroll_first_wrap_tick_801_witness:
  "(800::nat) \<le> 800 \<and> scroll_after 400 800 = 800 - 3 / 2 * real (800::nat) \<and>
   - 400 \<le> scroll_after 400 800 \<and> scroll_after 400 801 = 800"
  using scroll_first_wrap_tick_801[of 800] by simp

text \<open>
  Claim C4. In every pass the offset is decremented by exactly 1.5; when the decremented
  offset is below \<open>- textW\<close> the pass leaves the offset at \<^verbatim>\<open>SCREEN_WIDTH\<close> itself, and
  otherwise at the decremented value. A reset happens once per wrap: the pass after a
  reset leaves \<open>SCREEN_WIDTH - 1.5\<close>. The text width is that of a rendered surface,
  non-negative and below \<open>2 ^ 23 - 3\<close>, the range in which \<^verbatim>\<open>float\<close> holds every offset
  the loop reaches exactly.
\<close>

theorem scroll_step_and_wrap:
  "0 \<le> textW \<and> textW < 2 ^ 23 - 3 \<longrightarrow>
     scroll_after textW (Suc n) =
       (if scroll_after textW n - 3 / 2 < - of_int textW then of_int SCREEN_WIDTH
        else scroll_after textW n - 3 / 2) \<and>
     (scroll_after textW n - 3 / 2 < - of_int textW \<longrightarrow>
        scroll_after textW (Suc (Suc n)) = of_int SCREEN_WIDTH - 3 / 2)"
proof
  assume h: "0 \<le> textW \<and> textW < 2 ^ 23 - 3"
  then have a: "0 \<le> textW" "textW < 2 ^ 23 - 3" by simp_all
  have w: "real_of_int SCREEN_WIDTH = 800" by (simp add: SCREEN_WIDTH_def)
  have s1: "scroll_after textW (Suc n) =
       (if scroll_after textW n - 3 / 2 < - of_int textW then of_int SCREEN_WIDTH
        else scroll_after textW n - 3 / 2)"
    by (simp only: scroll_after_step[OF a] w)
  have s2: "scroll_after textW (Suc (Suc n)) = of_int SCREEN_WIDTH - 3 / 2"
    if "scroll_after textW n - 3 / 2 < - of_int textW"
  proof -
    from that s1 have "scroll_after textW (Suc n) = 800" by (simp del: scroll_after.simps add: w)
    moreover have "\<not> (800 - 3 / 2 < - real_of_int textW)" using a(1) by simp
    ultimately show ?thesis using scroll_after_step[OF a, of "Suc n"]
      by (simp del: scroll_after.simps add: w)
  qed
  from s1 s2 show "scroll_after textW (Suc n) =
       (if scroll_after textW n - 3 / 2 < - of_int textW then of_int SCREEN_WIDTH
        else scroll_after textW n - 3 / 2) \<and>
     (scroll_after textW n - 3 / 2 < - of_int textW \<longrightarrow>
        scroll_after textW (Suc (Suc n)) = of_int SCREEN_WIDTH - 3 / 2)" by blast
qed

text \<open>The statement for text width 400 at pass 801, where the offset wraps.\<close>

theorem scroll_step_and_wrap_witness:
  "(0::int) \<le> 400 \<and> (400::int) < 2 ^ 23 - 3 \<and>
   scroll_after 400 800 - 3 / 2 < - of_int 400 \<and>
   scroll_after 400 (Suc 800) = of_int SCREEN_WIDTH \<and>
   scroll_after 400 (Suc (Suc 800)) = of_int SCREEN_WIDTH - 3 / 2"
proof -
  have h: "(0::int) \<le> 400 \<and> (400::int) < 2 ^ 23 - 3" by simp
  have w: "scroll_after 400 800 - 3 / 2 < - of_int 400" using scroll_after_400[of 800] by simp
  from scroll_step_and_wrap[of 400 800] h w show ?thesis
    by (simp del: scroll_after.simps)
qed

section \<open>Claims about the main loop\<close>

lemma poll_events_quit: "Quit \<in> set evs \<Longrightarrow> poll_events evs running = False"
proof (induction evs arbitrary: running)
  case Nil
  then show ?case by simp
next
  case (Cons e evs)
  show ?case
  proof (cases "Quit \<in> set evs")
    case True
    then show ?thesis by (simp add: Cons.IH)
  next
    case False
    with Cons.prems have "e = Quit" by simp
    moreover have "poll_events evs False = False" by (induction evs) simp_all
    ultimately show ?thesis by simp
  qed
qed

lemma poll_events_no_quit: "Quit \<notin> set evs \<Longrightarrow> poll_events evs running = running"
  by (induction evs arbitrary: running) auto

lemma tick_fields:
  "is_running (tick textW rs evs s) = poll_events evs (is_running s)"
  "stars (tick textW rs evs s) = fst (update_stars rs (stars s) (rand_pos s))"
  "rand_pos (tick textW rs evs s) = snd (update_stars rs (stars s) (rand_pos s))"
  "scrollX (tick textW rs evs s) = scroll_update textW (scrollX s)"
  "time_counter (tick textW rs evs s) = fadd (time_counter s) (round32 (5 / 100))"
  by (simp_all add: tick_def update_logic_def split_beta)

lemma main_loop_stopped: "\<not> is_running s \<Longrightarrow> main_loop textW rs evss s = s"
  by (cases evss) simp_all

lemma main_loop_running_prefix:
  assumes "is_running s" "\<forall>b \<in> set pre. Quit \<notin> set b"
  shows "is_running (run_ticks textW rs pre s) \<and>
         main_loop textW rs (pre @ rest) s = main_loop textW rs rest (run_ticks textW rs pre s)"
  using assms
proof (induction pre arbitrary: s)
  case Nil
  then show ?case by simp
next
  case (Cons b pre)
  then have "is_running (tick textW rs b s)" by (simp add: tick_fields poll_events_no_quit)
  with Cons show ?case by simp
qed

lemma run_ticks_scroll:
  "scrollX (run_ticks textW rs evss s) = (scroll_update textW ^^ length evss) (scrollX s)"
  by (induction evss arbitrary: s) (simp_all add: tick_fields funpow_swap1)

lemma scroll_after_funpow: "scroll_after textW n = (scroll_update textW ^^ n) (int_to_float SCREEN_WIDTH)"
  by (induction n) simp_all

lemma run_ticks_scroll_after:
  "scrollX (run_ticks textW rs evss (initial_state rs)) = scroll_after textW (length evss)"
  by (simp add: run_ticks_scroll scroll_after_funpow initial_state_def)

lemma run_ticks_stars:
  "(stars (run_ticks textW rs evss (initial_state rs)), rand_pos (run_ticks textW rs evss (initial_state rs)))
     = run_updates rs (length evss)"
proof (induction evss rule: rev_induct)
  case Nil
  then show ?case by (simp add: initial_state_def)
next
  case (snoc b evss)
  have app: "run_ticks textW rs (evss @ [b]) s = tick textW rs b (run_ticks textW rs evss s)" for s
    by (induction evss arbitrary: s) simp_all
  from snoc have "stars (run_ticks textW rs evss (initial_state rs)) = fst (run_updates rs (length evss))"
    "rand_pos (run_ticks textW rs evss (initial_state rs)) = snd (run_updates rs (length evss))"
    by (simp_all add: prod_eq_iff)
  then show ?case by (simp add: app tick_fields)
qed

lemma fadd_time_0: "fadd 0 (round32 (5 / 100)) = 13421773 / 2 ^ 28"
proof -
  have "round32 (13421773 / 2 ^ 28) = 13421773 / 2 ^ 28"
    using round32_dyadic[of 13421773 28] by simp
  then show ?thesis by (simp only: fadd_def round32_twentieth add_0)
qed

lemma scroll_update_first: "scroll_update 400 800 = 1597 / 2"
  using scroll_update_half[of 1600 400] by simp

text \<open>
  Claim C1 says that after a quit event is observed no further star, scroll-offset or
  time-counter advancement is performed. The update block follows the event loop in the
  same pass and does not test the flag: with a quit event in the first pass, the flag is
  cleared, and yet the offset moves from 800 to 798.5, the time counter from 0 to 0.05f,
  and the first star (depth 0) is respawned at depth 512.
\<close>

theorem quit_tick_still_updates_counterexample:
  "is_running (initial_state (const_rand 0)) \<and>
   scrollX (initial_state (const_rand 0)) = 800 \<and>
   time_counter (initial_state (const_rand 0)) = 0 \<and>
   star_z (stars (initial_state (const_rand 0)) ! 0) = 0 \<and>
   \<not> is_running (tick 400 (const_rand 0) [Quit] (initial_state (const_rand 0))) \<and>
   scrollX (tick 400 (const_rand 0) [Quit] (initial_state (const_rand 0))) = 1597 / 2 \<and>
   time_counter (tick 400 (const_rand 0) [Quit] (initial_state (const_rand 0))) = 13421773 / 2 ^ 28 \<and>
   star_z (stars (tick 400 (const_rand 0) [Quit] (initial_state (const_rand 0))) ! 0) = 512"
proof -
  have n: "0 < NUM_STARS" by (simp add: NUM_STARS_def)
  have z: "star_z (fst (init_stars (const_rand 0)) ! 0) = 0"
    using init_depth_zero[OF n, of "const_rand 0"] by (simp add: const_rand_def)
  have u: "star_z (fst (run_updates (const_rand 0) 1) ! 0) = 512"
    using first_update_respawns[OF n z] .
  have s: "stars (tick 400 (const_rand 0) [Quit] (initial_state (const_rand 0)))
             = fst (run_updates (const_rand 0) 1)"
    by (simp add: tick_fields initial_state_def)
  have t: "time_counter (tick 400 (const_rand 0) [Quit] (initial_state (const_rand 0)))
             = 13421773 / 2 ^ 28"
    by (simp only: tick_fields initial_state_def demo_state.select_convs int_to_float_consts
          fadd_time_0)
  have x: "scrollX (tick 400 (const_rand 0) [Quit] (initial_state (const_rand 0))) = 1597 / 2"
    by (simp only: tick_fields initial_state_def demo_state.select_convs int_to_float_consts
          scroll_update_first)
  have i: "is_running (initial_state (const_rand 0))"
    "scrollX (initial_state (const_rand 0)) = 800"
    "time_counter (initial_state (const_rand 0)) = 0"
    "star_z (stars (initial_state (const_rand 0)) ! 0) = 0"
    by (simp_all add: initial_state_def int_to_float_consts z)
  have q: "\<not> is_running (tick 400 (const_rand 0) [Quit] (initial_state (const_rand 0)))"
    by (simp add: tick_fields)
  from i q x t u show ?thesis by (simp only: s) simp
qed

text \<open>
  Claim C1, amended. When a quit event is in the queue of a pass that begins with the
  loop running, that pass clears the flag and still performs its one update of the stars,
  the scroll offset and the time counter; the loop then ends in the state this pass
  leaves, whatever queues would follow, so nothing is advanced after that pass.
\<close>

theorem quit_tick_completes_then_stops:
  "is_running s \<and> (\<forall>b \<in> set pre. Quit \<notin> set b) \<and> Quit \<in> set evs \<longrightarrow>
     main_loop textW rs (pre @ evs # rest) s = tick textW rs evs (run_ticks textW rs pre s) \<and>
     \<not> is_running (tick textW rs evs (run_ticks textW rs pre s)) \<and>
     (stars (tick textW rs evs (run_ticks textW rs pre s)),
      rand_pos (tick textW rs evs (run_ticks textW rs pre s)))
       = update_stars rs (stars (run_ticks textW rs pre s)) (rand_pos (run_ticks textW rs pre s)) \<and>
     scrollX (tick textW rs evs (run_ticks textW rs pre s))
       = scroll_update textW (scrollX (run_ticks textW rs pre s)) \<and>
     time_counter (tick textW rs evs (run_ticks textW rs pre s))
       = fadd (time_counter (run_ticks textW rs pre s)) (round32 (5 / 100))"
proof
  assume h: "is_running s \<and> (\<forall>b \<in> set pre. Quit \<notin> set b) \<and> Quit \<in> set evs"
  let ?s1 = "run_ticks textW rs pre s"
  let ?s2 = "tick textW rs evs ?s1"
  from h main_loop_running_prefix[of s pre textW rs "evs # rest"]
  have r: "is_running ?s1" and m: "main_loop textW rs (pre @ evs # rest) s = main_loop textW rs (evs # rest) ?s1"
    by simp_all
  from h have stop: "\<not> is_running ?s2" by (simp add: tick_fields poll_events_quit)
  from m r have "main_loop textW rs (pre @ evs # rest) s = main_loop textW rs rest ?s2" by simp
  with stop have fin: "main_loop textW rs (pre @ evs # rest) s = ?s2"
    by (simp add: main_loop_stopped)
  from fin stop show "main_loop textW rs (pre @ evs # rest) s = ?s2 \<and>
     \<not> is_running ?s2 \<and>
     (stars ?s2, rand_pos ?s2) = update_stars rs (stars ?s1) (rand_pos ?s1) \<and>
     scrollX ?s2 = scroll_update textW (scrollX ?s1) \<and>
     time_counter ?s2 = fadd (time_counter ?s1) (round32 (5 / 100))"
    by (simp add: tick_fields)
qed

text \<open>The amended statement for a run whose second pass receives the quit event.\<close>

theorem quit_tick_completes_then_stops_witness:
  "is_running (initial_state (const_rand 0)) \<and>
   Quit \<notin> set [Other_Event] \<and> Quit \<in> set [Other_Event, Quit] \<and>
   main_loop 400 (const_rand 0) ([[Other_Event]] @ [Other_Event, Quit] # [[], [Other_Event]])
       (initial_state (const_rand 0))
     = tick 400 (const_rand 0) [Other_Event, Quit]
         (run_ticks 400 (const_rand 0) [[Other_Event]] (initial_state (const_rand 0))) \<and>
   \<not> is_running (tick 400 (const_rand 0) [Other_Event, Quit]
         (run_ticks 400 (const_rand 0) [[Other_Event]] (initial_state (const_rand 0))))"
proof -
  have h: "is_running (initial_state (const_rand 0)) \<and>
   (\<forall>b \<in> set [[Other_Event]]. Quit \<notin> set b) \<and> Quit \<in> set [Other_Event, Quit]"
    by (simp add: initial_state_def)
  from quit_tick_completes_then_stops[of "initial_state (const_rand 0)" "[[Other_Event]]"
      "[Other_Event, Quit]" 400 "const_rand 0" "[[], [Other_Event]]"] h
  show ?thesis by simp
qed


section \<open>Claims about the raster bar and the colour cycle\<close>

lemma int_to_double_small: "\<bar>n\<bar> < 2 ^ 53 \<Longrightarrow> int_to_double n = of_int n"
  by (simp add: int_to_double_def round64_int)

lemma wave_unfold:
  "dmul (ddiv (dadd v (round32 1)) (round32 2)) (of_int K) =
     round64 (round64 (round64 (v + 1) / 2) * of_int K)"
  by (simp add: dmul_def ddiv_def dadd_def round32_numeral)

lemma wave_lower:
  assumes "of_int n / 1024 \<le> v" "- 1024 \<le> n" "n \<le> 1024" "0 \<le> K" "K \<le> 1024"
  shows "of_int ((n + 1024) * K) / 2048 \<le> round64 (round64 (round64 (v + 1) / 2) * of_int K)"
proof -
  have e1: "round64 (of_int (n + 1024) / 2 ^ 10) = of_int (n + 1024) / 2 ^ 10"
    using assms(2,3) by (intro round64_dyadic) simp_all
  have e2: "round64 (of_int (n + 1024) / 2 ^ 11) = of_int (n + 1024) / 2 ^ 11"
    using assms(2,3) by (intro round64_dyadic) simp_all
  have "\<bar>(n + 1024) * K\<bar> \<le> 2048 * 1024"
    unfolding abs_mult using assms(2-5) by (intro mult_mono) simp_all
  then have e3: "round64 (of_int ((n + 1024) * K) / 2 ^ 11) = of_int ((n + 1024) * K) / 2 ^ 11"
    by (intro round64_dyadic) simp_all
  have "of_int (n + 1024) / 2 ^ 10 \<le> v + 1" using assms(1) by (simp add: field_simps)
  from round64_mono[OF this] have "of_int (n + 1024) / 2 ^ 10 \<le> round64 (v + 1)" by (simp only: e1)
  then have "of_int (n + 1024) / 2 ^ 11 \<le> round64 (v + 1) / 2" by simp
  from round64_mono[OF this] have "of_int (n + 1024) / 2 ^ 11 \<le> round64 (round64 (v + 1) / 2)"
    by (simp only: e2)
  then have "of_int (n + 1024) / 2 ^ 11 * of_int K \<le> round64 (round64 (v + 1) / 2) * of_int K"
    using assms(4) by (intro mult_right_mono) simp_all
  then have "of_int ((n + 1024) * K) / 2 ^ 11 \<le> round64 (round64 (v + 1) / 2) * of_int K" by simp
  from round64_mono[OF this] show ?thesis by (simp only: e3) simp
qed

lemma wave_upper:
  assumes "v \<le> of_int n / 1024" "- 1024 \<le> n" "n \<le> 1024" "0 \<le> K" "K \<le> 1024"
  shows "round64 (round64 (round64 (v + 1) / 2) * of_int K) \<le> of_int ((n + 1024) * K) / 2048"
proof -
  have e1: "round64 (of_int (n + 1024) / 2 ^ 10) = of_int (n + 1024) / 2 ^ 10"
    using assms(2,3) by (intro round64_dyadic) simp_all
  have e2: "round64 (of_int (n + 1024) / 2 ^ 11) = of_int (n + 1024) / 2 ^ 11"
    using assms(2,3) by (intro round64_dyadic) simp_all
  have "\<bar>(n + 1024) * K\<bar> \<le> 2048 * 1024"
    unfolding abs_mult using assms(2-5) by (intro mult_mono) simp_all
  then have e3: "round64 (of_int ((n + 1024) * K) / 2 ^ 11) = of_int ((n + 1024) * K) / 2 ^ 11"
    by (intro round64_dyadic) simp_all
  have "v + 1 \<le> of_int (n + 1024) / 2 ^ 10" using assms(1) by (simp add: field_simps)
  from round64_mono[OF this] have "round64 (v + 1) \<le> of_int (n + 1024) / 2 ^ 10" by (simp only: e1)
  then have "round64 (v + 1) / 2 \<le> of_int (n + 1024) / 2 ^ 11" by simp
  from round64_mono[OF this] have "round64 (round64 (v + 1) / 2) \<le> of_int (n + 1024) / 2 ^ 11"
    by (simp only: e2)
  then have "round64 (round64 (v + 1) / 2) * of_int K \<le> of_int (n + 1024) / 2 ^ 11 * of_int K"
    using assms(4) by (intro mult_right_mono) simp_all
  then have "round64 (round64 (v + 1) / 2) * of_int K \<le> of_int ((n + 1024) * K) / 2 ^ 11" by simp
  from round64_mono[OF this] show ?thesis by (simp only: e3) simp
qed

lemma bar_consts: "bar_h = 75" "SCREEN_HEIGHT - bar_h = 525"
  by (simp_all add: bar_h_def SCREEN_HEIGHT_def c_div_def)

lemma cycle_value_unfold:
  "cycle_value sn a = round64 (round64 (round64 (sn a + 1) / 2) * of_int 255)"
proof -
  have "int_to_double 255 = of_int 255" by (intro int_to_double_small) simp
  then show ?thesis by (simp only: cycle_value_def wave_unfold)
qed


text \<open>
  Claim C7. For every value \<open>t\<close> of the time counter, the vertical position of the raster
  bar, \<^verbatim>\<open>(int)((sin(t) + 1.0f) / 2.0f * (SCREEN_HEIGHT - bar.h))\<close> with
  \<^verbatim>\<open>bar.h = SCREEN_HEIGHT / 8\<close>, lies between 0 and \<^verbatim>\<open>SCREEN_HEIGHT - bar.h\<close>. The sine of
  the C library enters through its range \<open>[-1, 1]\<close> only.
\<close>

theorem raster_bar_position_in_range:
  "- 1 \<le> sn t \<and> sn t \<le> 1 \<longrightarrow> 0 \<le> bar_y sn t \<and> bar_y sn t \<le> SCREEN_HEIGHT - bar_h"
proof
  assume h: "- 1 \<le> sn t \<and> sn t \<le> 1"
  define w where "w = round64 (round64 (round64 (sn t + 1) / 2) * of_int 525)"
  have d: "int_to_double 525 = of_int 525" by (intro int_to_double_small) simp
  have y: "bar_y sn t = fp_to_int w"
    by (simp only: bar_y_def bar_consts(2) d wave_unfold w_def)
  from h wave_lower[of "- 1024" "sn t" 525] have lo: "0 \<le> w" by (simp add: w_def)
  from h wave_upper[of "sn t" 1024 525] have hi: "w \<le> 525" by (simp add: w_def)
  from lo hi have "fp_to_int w = \<lfloor>w\<rfloor>" by (intro fp_to_int_floor) simp_all
  moreover from lo have "0 \<le> \<lfloor>w\<rfloor>" by simp
  moreover from hi have "\<lfloor>w\<rfloor> \<le> 525" by (simp add: floor_le_iff)
  ultimately have "0 \<le> fp_to_int w \<and> fp_to_int w \<le> 525" by simp
  then show "0 \<le> bar_y sn t \<and> bar_y sn t \<le> SCREEN_HEIGHT - bar_h"
    by (simp only: y bar_consts(2))
qed

text \<open>The statement for the exact sine at \<open>t = 3\<close>.\<close>

theorem raster_bar_position_in_range_witness:
  "- 1 \<le> sin (3::real) \<and> sin (3::real) \<le> 1 \<and> 0 \<le> bar_y sin 3 \<and> bar_y sin 3 \<le> SCREEN_HEIGHT - bar_h"
proof -
  have h: "- 1 \<le> sin (3::real) \<and> sin (3::real) \<le> 1" by simp
  from raster_bar_position_in_range[of sin 3] h show ?thesis by blast
qed

text \<open>
  Bounds for \<open>sin 2\<close> and \<open>sin 4\<close> from the Taylor polynomial of the sine with its
  remainder estimate.
\<close>

lemma sin_coeff_sum_2: "(\<Sum>m<13. sin_coeff m * (2::real) ^ m) = 141782 / 155925"
  by (simp add: lessThan_nat_numeral sin_coeff_def fact_numeral lessThan_Suc)

lemma sin_2_bounds: "931 / 1024 + 1 / 2 ^ 20 \<le> sin (2::real) \<and> sin (2::real) \<le> 932 / 1024 - 1 / 2 ^ 20"
proof -
  have "\<bar>sin (2::real) - (\<Sum>m<13. sin_coeff m * 2 ^ m)\<bar> \<le> inverse (fact 13) * \<bar>2\<bar> ^ 13"
    by (rule Maclaurin_sin_bound)
  then have "\<bar>sin (2::real) - 141782 / 155925\<bar> \<le> 8 / 6081075"
    by (simp only: sin_coeff_sum_2) (simp add: fact_numeral)
  then have "141782 / 155925 - 8 / 6081075 \<le> sin (2::real)" "sin (2::real) \<le> 141782 / 155925 + 8 / 6081075"
    by (simp_all only: abs_le_iff) linarith+
  then show ?thesis by simp
qed

lemma sin_coeff_sum_4: "(\<Sum>m<21. sin_coeff m * (4::real) ^ m) = - 2205250156 / 2913904125"
  by (simp add: lessThan_nat_numeral sin_coeff_def fact_numeral lessThan_Suc)

lemma sin_4_bounds: "- 775 / 1024 + 1 / 2 ^ 20 \<le> sin (4::real) \<and> sin (4::real) \<le> - 774 / 1024 - 1 / 2 ^ 20"
proof -
  have "\<bar>sin (4::real) - (\<Sum>m<21. sin_coeff m * 4 ^ m)\<bar> \<le> inverse (fact 21) * \<bar>4\<bar> ^ 21"
    by (rule Maclaurin_sin_bound)
  then have "\<bar>sin (4::real) - (- 2205250156 / 2913904125)\<bar> \<le> 16777216 / 194896477400625"
    by (simp only: sin_coeff_sum_4) (simp add: fact_numeral)
  then have "- 2205250156 / 2913904125 - 16777216 / 194896477400625 \<le> sin (4::real)"
     "sin (4::real) \<le> - 2205250156 / 2913904125 + 16777216 / 194896477400625"
    by (simp_all only: abs_le_iff) linarith+
  then show ?thesis by simp
qed

lemma cycle_channel_between:
  assumes "of_int n / 1024 \<le> sn a" "sn a \<le> of_int m / 1024"
    "- 1024 \<le> n" "n \<le> 1024" "- 1024 \<le> m" "m \<le> 1024"
    "of_int c \<le> real_of_int ((n + 1024) * 255) / 2048"
    "real_of_int ((m + 1024) * 255) / 2048 < of_int c + 1" "0 \<le> c" "c < 256"
  shows "cycle_channel sn a = nat c"
proof -
  define w where "w = cycle_value sn a"
  from wave_lower[OF assms(1), of 255] assms(3,4)
  have lo: "real_of_int ((n + 1024) * 255) / 2048 \<le> w" by (simp add: w_def cycle_value_unfold)
  from wave_upper[OF assms(2), of 255] assms(5,6)
  have hi: "w \<le> real_of_int ((m + 1024) * 255) / 2048"
    by (simp add: w_def cycle_value_unfold)
  from lo hi assms(7,8) have b: "of_int c \<le> w" "w < of_int c + 1" by linarith+
  then have f: "\<lfloor>w\<rfloor> = c" by (simp add: floor_eq_iff)
  from b assms(9,10) have "fp_to_int w = \<lfloor>w\<rfloor>" by (intro fp_to_int_floor) simp_all
  with f assms(9,10) show ?thesis by (simp add: cycle_channel_def fp_to_uint8_def w_def)
qed

lemma near_bounds:
  fixes u v :: real
  assumes "\<bar>u - v\<bar> \<le> e" "lo + e \<le> v" "v \<le> hi - e"
  shows "lo \<le> u \<and> u \<le> hi"
  using assms by linarith

lemma tint_value_at_zero:
  assumes "\<bar>sn 0 - sin 0\<bar> \<le> 1 / 2 ^ 20" "\<bar>sn 2 - sin 2\<bar> \<le> 1 / 2 ^ 20" "\<bar>sn 4 - sin 4\<bar> \<le> 1 / 2 ^ 20"
  shows "scroller_tint sn 0 = (127, 243, 31)"
proof -
  have a2: "fadd 0 (round32 2) = 2" by (simp add: fadd_def round32_numeral)
  have a4: "fadd 0 (round32 4) = 4" by (simp add: fadd_def round32_numeral)
  have "real_of_int (- 1) / 1024 \<le> sn 0 \<and> sn 0 \<le> real_of_int 1 / 1024"
    using assms(1) by (intro near_bounds[where v = "sin 0" and e = "1 / 2 ^ 20"]) simp_all
  then have r: "cycle_channel sn 0 = nat 127"
    by (intro cycle_channel_between[where n = "- 1" and m = 1]) simp_all
  have "real_of_int 931 / 1024 \<le> sn 2 \<and> sn 2 \<le> real_of_int 932 / 1024"
    using assms(2) sin_2_bounds
    by (intro near_bounds[where v = "sin 2" and e = "1 / 2 ^ 20"]) simp_all
  then have g: "cycle_channel sn 2 = nat 243"
    by (intro cycle_channel_between[where n = 931 and m = 932]) simp_all
  have "real_of_int (- 775) / 1024 \<le> sn 4 \<and> sn 4 \<le> real_of_int (- 774) / 1024"
    using assms(3) sin_4_bounds
    by (intro near_bounds[where v = "sin 4" and e = "1 / 2 ^ 20"]) simp_all
  then have b: "cycle_channel sn 4 = nat 31"
    by (intro cycle_channel_between[where n = "- 775" and m = "- 774"]) simp_all
  from r g b show ?thesis by (simp add: scroller_tint_def a2 a4)
qed

text \<open>
  Claim C6 says that at \<^verbatim>\<open>time_counter = 0\<close> each of the three channels of the scroller
  tint is 127 or 128. With the exact sine the tint is (127, 243, 31): the green and blue
  channels, whose phases are 2 and 4 radians, are neither 127 nor 128.
\<close>

theorem scroller_tint_at_0_counterexample:
  "scroller_tint sin 0 = (127, 243, 31) \<and>
   fst (snd (scroller_tint sin 0)) \<notin> {127, 128} \<and>
   snd (snd (scroller_tint sin 0)) \<notin> {127, 128}"
  using tint_value_at_zero[of sin] by simp

text \<open>
  Claim C6, amended. At \<^verbatim>\<open>time_counter = 0\<close>, the value the counter has when the loop
  starts, the scroller tint is determined: R = 127, G = 243 and B = 31, each computed as
  \<^verbatim>\<open>(Uint8)((sin(0 + offset) + 1) / 2 * 255)\<close> with offsets 0, 2 and 4. This holds for
  every sine that is within \<open>2 ^ -20\<close> of the exact one at 0, 2 and 4.
\<close>

theorem scroller_tint_at_time_zero:
  "\<bar>sn 0 - sin 0\<bar> \<le> 1 / 2 ^ 20 \<and> \<bar>sn 2 - sin 2\<bar> \<le> 1 / 2 ^ 20 \<and> \<bar>sn 4 - sin 4\<bar> \<le> 1 / 2 ^ 20 \<longrightarrow>
     scroller_tint sn (time_counter (initial_state rs)) = (127, 243, 31)"
proof
  assume "\<bar>sn 0 - sin 0\<bar> \<le> 1 / 2 ^ 20 \<and> \<bar>sn 2 - sin 2\<bar> \<le> 1 / 2 ^ 20 \<and> \<bar>sn 4 - sin 4\<bar> \<le> 1 / 2 ^ 20"
  then have "scroller_tint sn 0 = (127, 243, 31)" by (intro tint_value_at_zero) simp_all
  then show "scroller_tint sn (time_counter (initial_state rs)) = (127, 243, 31)"
    by (simp add: initial_state_def int_to_float_consts)
qed

text \<open>The amended statement for the exact sine.\<close>

theorem scroller_tint_at_time_zero_witness:
  "\<bar>sin (0::real) - sin 0\<bar> \<le> 1 / 2 ^ 20 \<and> \<bar>sin (2::real) - sin 2\<bar> \<le> 1 / 2 ^ 20 \<and>
   \<bar>sin (4::real) - sin 4\<bar> \<le> 1 / 2 ^ 20 \<and>
   scroller_tint sin (time_counter (initial_state (const_rand 0))) = (127, 243, 31)"
proof -
  have h: "\<bar>sin (0::real) - sin 0\<bar> \<le> 1 / 2 ^ 20 \<and> \<bar>sin (2::real) - sin 2\<bar> \<le> 1 / 2 ^ 20 \<and>
   \<bar>sin (4::real) - sin 4\<bar> \<le> 1 / 2 ^ 20" by simp
  from scroller_tint_at_time_zero[of sin "const_rand 0"] h show ?thesis by blast
qed






































end
